theory Spec2Isabelle
  imports Main "HOL-Library.Multiset" "HOL-Library.List_Lexorder" "HOL-Library.Char_ord"
begin

section \<open>Data model of topo\_order\_commits.py\<close>

text \<open>
  A \<^verbatim>\<open>CommitObject\<close> has a hash and three lists of hashes. Its \<^verbatim>\<open>__eq__\<close> compares
  the hash alone, with a hash string as well as with another object, so every search of
  the commit list (\<^verbatim>\<open>==\<close>, \<^verbatim>\<open>in\<close>, \<^verbatim>\<open>list.remove\<close>) is a search by hash.
\<close>

record CommitObject =
  commit_hash :: string
  parents :: "string list"
  children :: "string list"
  temp_parents :: "string list"

text \<open>\<^verbatim>\<open>CommitObject(h)\<close> followed by the appends of \<^verbatim>\<open>grab_commits\<close> to \<^verbatim>\<open>parents\<close>.\<close>

definition new_commit :: "string \<Rightarrow> string list \<Rightarrow> CommitObject" where
  "new_commit h ps = \<lparr>commit_hash = h, parents = ps, children = [], temp_parents = []\<rparr>"

text \<open>
  The ways a run ends early: an uncaught \<^verbatim>\<open>AttributeError\<close> (an attribute of \<^verbatim>\<open>None\<close> is
  read; the interpreter prints a traceback and the status is 1), or \<^verbatim>\<open>sys.exit(1)\<close> after
  the program's own \<^verbatim>\<open>print(..., file=sys.stderr)\<close>; \<open>SystemExit\<close> carries the lines the
  function has written on the error stream when it exits.
\<close>

datatype error = AttributeError | SystemExit "string list"

text \<open>\<^verbatim>\<open>initialize_temp_parents\<close>: \<^verbatim>\<open>self.temp_parents[:] = self.parents\<close>.\<close>

definition initialize_temp_parents :: "CommitObject \<Rightarrow> CommitObject" where
  "initialize_temp_parents c = c\<lparr>temp_parents := parents c\<rparr>"

text \<open>\<^verbatim>\<open>grab_corresponding_commit\<close>: the first commit of the list with that hash, or \<^verbatim>\<open>None\<close>.\<close>

primrec grab_corresponding_commit :: "CommitObject list \<Rightarrow> string \<Rightarrow> CommitObject option" where
  "grab_corresponding_commit [] h = None"
| "grab_corresponding_commit (c # cs) h =
     (if commit_hash c = h then Some c else grab_corresponding_commit cs h)"

text \<open>
  The commits are mutable objects held by the list; a mutation of the object that
  \<^verbatim>\<open>grab_corresponding_commit\<close> returned is an update of the first list element with that
  hash.
\<close>

primrec update_commit :: "(CommitObject \<Rightarrow> CommitObject) \<Rightarrow> string \<Rightarrow> CommitObject list
    \<Rightarrow> CommitObject list" where
  "update_commit f h [] = []"
| "update_commit f h (c # cs) =
     (if commit_hash c = h then f c # cs else c # update_commit f h cs)"

text \<open>\<^verbatim>\<open>commits.remove(commit)\<close>: drops the first element equal to it, that is, of equal hash.\<close>

primrec remove_commit :: "string \<Rightarrow> CommitObject list \<Rightarrow> CommitObject list" where
  "remove_commit h [] = []"
| "remove_commit h (c # cs) = (if commit_hash c = h then cs else c # remove_commit h cs)"

section \<open>build\_commit\_graph\<close>

text \<open>
  The local state of \<^verbatim>\<open>build_commit_graph\<close>: the dict \<^verbatim>\<open>visited\<close>, the worklist
  \<^verbatim>\<open>processing_list\<close>, and the two lists it mutates for its caller.
\<close>

record build_state =
  b_visited :: "string \<rightharpoonup> bool"
  b_processing_list :: "string list"
  b_commits :: "CommitObject list"
  b_root_commits :: "string list"

text \<open>
  The body of the loop \<^verbatim>\<open>for parent in commit.parents\<close>, run for the commit \<open>h\<close> and its
  parent \<open>p\<close>. Reading \<^verbatim>\<open>.children\<close> of a parent that has no commit object raises.
\<close>

definition link_parent :: "string \<Rightarrow> string \<Rightarrow> build_state \<Rightarrow> error + build_state" where
  "link_parent h p st =
     (let st1 = (if b_visited st p = None
                 then st\<lparr>b_processing_list := b_processing_list st @ [p],
                         b_visited := (b_visited st)(p \<mapsto> False)\<rparr>
                 else st)
      in case grab_corresponding_commit (b_commits st1) p of
           None \<Rightarrow> Inl AttributeError
         | Some parent_commit \<Rightarrow>
             Inr (st1\<lparr>b_commits :=
                    update_commit (\<lambda>c. c\<lparr>children := children c @ [h]\<rparr>) p (b_commits st1)\<rparr>))"

text \<open>The loop \<^verbatim>\<open>for parent in commit.parents\<close>.\<close>

fun link_parents :: "string \<Rightarrow> string list \<Rightarrow> build_state \<Rightarrow> error + build_state" where
  "link_parents h [] st = Inr st"
| "link_parents h (p # ps) st =
     (case link_parent h p st of
        Inl e \<Rightarrow> Inl e
      | Inr st' \<Rightarrow> link_parents h ps st')"

text \<open>The hashes that occur as a parent in some commit of the list.\<close>

definition parent_hashes :: "CommitObject list \<Rightarrow> string set" where
  "parent_hashes cs = (\<Union>c \<in> set cs. set (parents c))"

definition build_measure :: "nat \<times> build_state \<Rightarrow> nat" where
  "build_measure = (\<lambda>(i, st).
     card (parent_hashes (b_commits st) - dom (b_visited st))
       + (length (b_processing_list st) - i))"

lemma grab_Some_mem: "grab_corresponding_commit cs h = Some c \<Longrightarrow> c \<in> set cs \<and> commit_hash c = h"
  by (induction cs) (auto split: if_splits)

lemma grab_None_iff: "grab_corresponding_commit cs h = None \<longleftrightarrow> h \<notin> commit_hash ` set cs"
  by (induction cs) auto

lemma parent_hashes_update_children [simp]:
  "parent_hashes (update_commit (\<lambda>c. c\<lparr>children := g c\<rparr>) h cs) = parent_hashes cs"
  by (induction cs) (auto simp: parent_hashes_def)

lemma finite_parent_hashes [simp]: "finite (parent_hashes cs)"
  by (simp add: parent_hashes_def)

lemma link_parent_new:
  assumes "link_parent h p st = Inr st'" and "b_visited st p = None"
  shows "b_visited st' = (b_visited st)(p \<mapsto> False)"
    and "b_processing_list st' = b_processing_list st @ [p]"
    and "b_commits st' = update_commit (\<lambda>c. c\<lparr>children := children c @ [h]\<rparr>) p (b_commits st)"
    and "b_root_commits st' = b_root_commits st"
  using assms by (auto simp: link_parent_def Let_def split: option.splits)

lemma link_parent_old:
  assumes "link_parent h p st = Inr st'" and "b_visited st p \<noteq> None"
  shows "b_visited st' = b_visited st"
    and "b_processing_list st' = b_processing_list st"
    and "b_commits st' = update_commit (\<lambda>c. c\<lparr>children := children c @ [h]\<rparr>) p (b_commits st)"
    and "b_root_commits st' = b_root_commits st"
  using assms by (auto simp: link_parent_def Let_def split: option.splits)

lemma link_parent_grab:
  assumes "link_parent h p st = Inr st'"
  shows "\<exists>c. grab_corresponding_commit (b_commits st) p = Some c"
  using assms by (auto simp: link_parent_def Let_def split: option.splits if_splits)

lemma link_parent_measure:
  assumes "link_parent h p st = Inr st'" and pin: "p \<in> parent_hashes (b_commits st)"
  shows "parent_hashes (b_commits st') = parent_hashes (b_commits st) \<and>
     length (b_processing_list st) \<le> length (b_processing_list st') \<and>
     card (parent_hashes (b_commits st') - dom (b_visited st')) + length (b_processing_list st')
       = card (parent_hashes (b_commits st) - dom (b_visited st)) + length (b_processing_list st)"
proof (cases "b_visited st p = None")
  case True
  note n = link_parent_new [OF assms(1) True]
  have pnd: "p \<in> parent_hashes (b_commits st) - dom (b_visited st)"
    using pin True by (auto simp: dom_def)
  have eq: "parent_hashes (b_commits st) - dom (b_visited st')
        = (parent_hashes (b_commits st) - dom (b_visited st)) - {p}"
    unfolding n(1) by auto
  have "Suc (card ((parent_hashes (b_commits st) - dom (b_visited st)) - {p}))
        = card (parent_hashes (b_commits st) - dom (b_visited st))"
    using pnd by (intro card.remove [symmetric]) auto
  moreover have "length (b_processing_list st') = Suc (length (b_processing_list st))"
    unfolding n(2) by simp
  moreover have ph: "parent_hashes (b_commits st') = parent_hashes (b_commits st)"
    unfolding n(3) by simp
  ultimately show ?thesis unfolding ph eq by simp
next
  case False
  note n = link_parent_old [OF assms(1) False]
  show ?thesis unfolding n by simp
qed

lemma link_parents_measure:
  "link_parents h ps st = Inr st' \<Longrightarrow> set ps \<subseteq> parent_hashes (b_commits st) \<Longrightarrow>
     parent_hashes (b_commits st') = parent_hashes (b_commits st) \<and>
     length (b_processing_list st) \<le> length (b_processing_list st') \<and>
     card (parent_hashes (b_commits st') - dom (b_visited st')) + length (b_processing_list st')
       = card (parent_hashes (b_commits st) - dom (b_visited st)) + length (b_processing_list st)"
proof (induction ps arbitrary: st)
  case Nil
  then show ?case by simp
next
  case (Cons p ps)
  from Cons.prems(1) obtain st1 where l: "link_parent h p st = Inr st1"
    and r: "link_parents h ps st1 = Inr st'"
    by (auto split: sum.splits)
  have pin: "p \<in> parent_hashes (b_commits st)"
    using Cons.prems(2) by simp
  note m = link_parent_measure [OF l pin]
  have "set ps \<subseteq> parent_hashes (b_commits st1)"
    using Cons.prems(2) m by simp
  from Cons.IH [OF r this] m show ?case by auto
qed

text \<open>
  The body of the loop \<^verbatim>\<open>for commit_hash in processing_list\<close>, with \<open>h\<close> for
  \<^verbatim>\<open>commit_hash\<close>; \<^verbatim>\<open>continue\<close> is the unchanged state. Reading \<^verbatim>\<open>.parents\<close> of \<^verbatim>\<open>None\<close> raises.
\<close>

definition build_body :: "string \<Rightarrow> build_state \<Rightarrow> error + build_state" where
  "build_body h st =
     (if b_visited st h = Some True then Inr st
      else
        (let st1 = st\<lparr>b_visited := (b_visited st)(h \<mapsto> True)\<rparr> in
         case grab_corresponding_commit (b_commits st1) h of
           None \<Rightarrow> Inl AttributeError
         | Some commit \<Rightarrow>
             (let st2 = (if parents commit = []
                         then st1\<lparr>b_root_commits := b_root_commits st1 @ [h]\<rparr>
                         else st1)
              in link_parents h (parents commit) st2)))"

lemma build_body_measure:
  assumes "build_body h st = Inr st'"
  shows "length (b_processing_list st) \<le> length (b_processing_list st')"
    and "card (parent_hashes (b_commits st') - dom (b_visited st')) + length (b_processing_list st')
       \<le> card (parent_hashes (b_commits st) - dom (b_visited st)) + length (b_processing_list st)"
proof -
  have "length (b_processing_list st) \<le> length (b_processing_list st') \<and>
     card (parent_hashes (b_commits st') - dom (b_visited st')) + length (b_processing_list st')
       \<le> card (parent_hashes (b_commits st) - dom (b_visited st)) + length (b_processing_list st)"
  proof (cases "b_visited st h = Some True")
    case True
    with assms show ?thesis by (simp add: build_body_def)
  next
    case False
    define st1 where "st1 = st\<lparr>b_visited := (b_visited st)(h \<mapsto> True)\<rparr>"
    from False assms obtain commit where
      g: "grab_corresponding_commit (b_commits st) h = Some commit"
      by (cases "grab_corresponding_commit (b_commits st) h") (auto simp: build_body_def Let_def)
    define st2 where "st2 = (if parents commit = []
        then st1\<lparr>b_root_commits := b_root_commits st1 @ [h]\<rparr> else st1)"
    have l: "link_parents h (parents commit) st2 = Inr st'"
      using False assms g by (auto simp: build_body_def st1_def st2_def Let_def split: if_splits)
    have cs2: "b_commits st2 = b_commits st" and pl2: "b_processing_list st2 = b_processing_list st"
      and vis2: "b_visited st2 = (b_visited st)(h \<mapsto> True)"
      by (simp_all add: st2_def st1_def)
    have "commit \<in> set (b_commits st)"
      using g grab_Some_mem by blast
    then have sub: "set (parents commit) \<subseteq> parent_hashes (b_commits st2)"
      unfolding cs2 by (auto simp: parent_hashes_def)
    note lm = link_parents_measure [OF l sub]
    have c2: "card (parent_hashes (b_commits st) - dom (b_visited st2))
        \<le> card (parent_hashes (b_commits st) - dom (b_visited st))"
      unfolding vis2 by (intro card_mono) auto
    have "parent_hashes (b_commits st') = parent_hashes (b_commits st)"
      using lm unfolding cs2 by (rule conjunct1)
    moreover have "length (b_processing_list st) \<le> length (b_processing_list st')"
      using lm unfolding pl2 by blast
    moreover have "card (parent_hashes (b_commits st') - dom (b_visited st'))
        + length (b_processing_list st')
        = card (parent_hashes (b_commits st) - dom (b_visited st2)) + length (b_processing_list st)"
      using lm unfolding cs2 pl2 by blast
    ultimately show ?thesis using c2 by simp
  qed
  then show "length (b_processing_list st) \<le> length (b_processing_list st')"
    and "card (parent_hashes (b_commits st') - dom (b_visited st')) + length (b_processing_list st')
       \<le> card (parent_hashes (b_commits st) - dom (b_visited st)) + length (b_processing_list st)"
    by blast+
qed

text \<open>
  The loop itself appends to the list it iterates: the list iterator is an index into the
  live list, and the loop ends when the index reaches the current length.
\<close>

function build_loop :: "nat \<Rightarrow> build_state \<Rightarrow> error + build_state" where
  "build_loop i st =
     (if i < length (b_processing_list st) then
        (case build_body (b_processing_list st ! i) st of
           Inl e \<Rightarrow> Inl e
         | Inr st' \<Rightarrow> build_loop (i + 1) st')
      else Inr st)"
  by pat_completeness auto

termination
proof (relation "measure build_measure", goal_cases)
  case 1
  then show ?case by simp
next
  case (2 i st st')
  then have b: "build_body (b_processing_list st ! i) st = Inr st'" by simp
  show ?case
    using 2(1) build_body_measure [OF b] unfolding build_measure_def by simp
qed

declare build_loop.simps [simp del]

text \<open>
  \<^verbatim>\<open>remove_unvisited_commits\<close>: a \<^verbatim>\<open>for\<close> loop over the list it removes from. The list
  iterator is an index: it yields \<^verbatim>\<open>commits[i]\<close> while \<^verbatim>\<open>i < len(commits)\<close> and then
  advances, whatever the body did to the list. \<^verbatim>\<open>list(visited)\<close> is the list of the keys of
  the dict and is used for membership alone, so \<open>vis\<close> is the dict and \<^verbatim>\<open>commit not in visited\<close>
  is \<open>vis (commit_hash commit) = None\<close>.
\<close>

lemma length_remove_commit: "length (remove_commit h cs) \<le> length cs"
  by (induction cs) auto

function remove_unvisited_loop :: "nat \<Rightarrow> CommitObject list \<Rightarrow> (string \<rightharpoonup> bool)
    \<Rightarrow> CommitObject list" where
  "remove_unvisited_loop i cs vis =
     (if i < length cs then
        (let commit = cs ! i in
         if vis (commit_hash commit) = None
         then remove_unvisited_loop (i + 1) (remove_commit (commit_hash commit) cs) vis
         else remove_unvisited_loop (i + 1) cs vis)
      else cs)"
  by pat_completeness auto

termination
proof (relation "measure (\<lambda>(i, cs, vis). length cs - i)", goal_cases)
  case 1
  then show ?case by simp
next
  case (2 i cs vis c)
  then show ?case
    using length_remove_commit [of "commit_hash c" cs] by simp
next
  case (3 i cs vis c)
  then show ?case by auto
qed

declare remove_unvisited_loop.simps [simp del]

definition remove_unvisited_commits :: "CommitObject list \<Rightarrow> (string \<rightharpoonup> bool)
    \<Rightarrow> CommitObject list" where
  "remove_unvisited_commits cs vis = remove_unvisited_loop 0 cs vis"

text \<open>
  \<^verbatim>\<open>branches\<close> is a dict from hash to branch names; iterating it yields its keys in
  insertion order, so it is an association list. The function mutates \<^verbatim>\<open>commits\<close> and
  \<^verbatim>\<open>root_commits\<close> in place; the model returns both.
\<close>

definition build_init :: "(string \<times> string list) list \<Rightarrow> CommitObject list \<Rightarrow> string list
    \<Rightarrow> build_state" where
  "build_init branches cs roots =
     \<lparr>b_visited = Map.empty, b_processing_list = map fst branches,
      b_commits = cs, b_root_commits = roots\<rparr>"

definition build_commit_graph :: "(string \<times> string list) list \<Rightarrow> CommitObject list \<Rightarrow> string list
    \<Rightarrow> error + CommitObject list \<times> string list" where
  "build_commit_graph branches cs roots =
     (case build_loop 0 (build_init branches cs roots) of
        Inl e \<Rightarrow> Inl e
      | Inr st \<Rightarrow>
          Inr (remove_unvisited_commits (b_commits st) (b_visited st), b_root_commits st))"

section \<open>topological\_sort\<close>

text \<open>
  The state of \<^verbatim>\<open>topological_sort\<close>: the commit objects, whose \<^verbatim>\<open>temp_parents\<close> it
  mutates; \<^verbatim>\<open>processing_list\<close>, which is the caller's \<^verbatim>\<open>root_commits\<close> list itself
  (\<^verbatim>\<open>processing_list = root_commits  # no copy necessary, won't use again\<close>);
  \<^verbatim>\<open>sorted_list\<close>; and the lines written on the error stream.
\<close>

record sort_state =
  s_commits :: "CommitObject list"
  s_processing_list :: "string list"
  s_sorted_list :: "string list"
  s_stderr :: "string list"

text \<open>
  The body of the loop \<^verbatim>\<open>for child in commit.children\<close>, for the popped hash \<open>h\<close>.
  \<^verbatim>\<open>list.remove\<close> drops the first occurrence and raises \<^verbatim>\<open>ValueError\<close> when there is
  none; the \<^verbatim>\<open>except\<close> branch prints a warning. Either way the emptiness test of
  \<^verbatim>\<open>child_commit.temp_parents\<close> follows. Reading \<^verbatim>\<open>.temp_parents\<close> of \<^verbatim>\<open>None\<close> raises.
\<close>

definition relax_child :: "string \<Rightarrow> string \<Rightarrow> sort_state \<Rightarrow> error + sort_state" where
  "relax_child h child st =
     (case grab_corresponding_commit (s_commits st) child of
        None \<Rightarrow> Inl AttributeError
      | Some child_commit \<Rightarrow>
          (if h \<in> set (temp_parents child_commit)
           then
             (let st1 = st\<lparr>s_commits :=
                          update_commit (\<lambda>c. c\<lparr>temp_parents := remove1 h (temp_parents c)\<rparr>)
                            child (s_commits st)\<rparr>
              in Inr (if remove1 h (temp_parents child_commit) = []
                      then st1\<lparr>s_processing_list := s_processing_list st1 @ [child]\<rparr>
                      else st1))
           else
             (let st1 = st\<lparr>s_stderr :=
                          s_stderr st @ [''attempting to remove nonexisting parent'']\<rparr>
              in Inr (if temp_parents child_commit = []
                      then st1\<lparr>s_processing_list := s_processing_list st1 @ [child]\<rparr>
                      else st1))))"

text \<open>The loop \<^verbatim>\<open>for child in commit.children\<close>.\<close>

fun relax_children :: "string \<Rightarrow> string list \<Rightarrow> sort_state \<Rightarrow> error + sort_state" where
  "relax_children h [] st = Inr st"
| "relax_children h (child # rest) st =
     (case relax_child h child st of
        Inl e \<Rightarrow> Inl e
      | Inr st' \<Rightarrow> relax_children h rest st')"

text \<open>
  The body of the loop \<^verbatim>\<open>for commit_hash in processing_list\<close>, with \<open>h\<close> for
  \<^verbatim>\<open>commit_hash\<close>. Reading \<^verbatim>\<open>.children\<close> of \<^verbatim>\<open>None\<close> raises.
\<close>

definition sort_body :: "string \<Rightarrow> sort_state \<Rightarrow> error + sort_state" where
  "sort_body h st =
     (let st1 = st\<lparr>s_sorted_list := s_sorted_list st @ [h]\<rparr>
      in case grab_corresponding_commit (s_commits st1) h of
           None \<Rightarrow> Inl AttributeError
         | Some commit \<Rightarrow> relax_children h (children commit) st1)"

text \<open>
  The loop, again over a list that grows while it is iterated. Nothing bounds the growth
  for an arbitrary argument, so a run that never leaves the loop is the value \<open>None\<close>.
\<close>

partial_function (option) sort_loop :: "nat \<Rightarrow> sort_state \<Rightarrow> (error + sort_state) option" where
  [code]: "sort_loop i st =
     (if i < length (s_processing_list st) then
        (case sort_body (s_processing_list st ! i) st of
           Inl e \<Rightarrow> Some (Inl e)
         | Inr st' \<Rightarrow> sort_loop (i + 1) st')
      else Some (Inr st))"

definition sort_init :: "CommitObject list \<Rightarrow> string list \<Rightarrow> sort_state" where
  "sort_init cs roots =
     \<lparr>s_commits = map initialize_temp_parents cs, s_processing_list = roots,
      s_sorted_list = [], s_stderr = []\<rparr>"

text \<open>The two checks after the loop, each a \<^verbatim>\<open>print\<close> on the error stream and \<^verbatim>\<open>sys.exit(1)\<close>.\<close>

definition sort_checks :: "sort_state \<Rightarrow> error + sort_state" where
  "sort_checks st =
     (if \<exists>c \<in> set (s_commits st). temp_parents c \<noteq> []
      then Inl (SystemExit (s_stderr st @ [''cycle in .git graph detected'']))
      else if length (s_commits st) \<noteq> length (s_sorted_list st)
      then Inl (SystemExit (s_stderr st @ [''failure to generate topological sort'']))
      else Inr st)"

text \<open>
  On success the returned list is \<open>s_sorted_list\<close> of the final state; \<open>s_commits\<close> and
  \<open>s_processing_list\<close> of that state are what the caller's \<^verbatim>\<open>commits\<close> and
  \<^verbatim>\<open>root_commits\<close> have become.
\<close>

definition topological_sort :: "CommitObject list \<Rightarrow> string list \<Rightarrow> (error + sort_state) option" where
  "topological_sort cs roots =
     (case sort_loop 0 (sort_init cs roots) of
        None \<Rightarrow> None
      | Some (Inl e) \<Rightarrow> Some (Inl e)
      | Some (Inr st) \<Rightarrow> Some (sort_checks st))"

section \<open>print\_sticky\_sorted\_order\<close>

text \<open>\<^verbatim>\<open>print(*xs)\<close> writes the arguments separated by one space.\<close>

fun print_args :: "string list \<Rightarrow> string" where
  "print_args [] = []"
| "print_args [x] = x"
| "print_args (x # y # xs) = x @ '' '' @ print_args (y # xs)"

text \<open>
  The body of the loop, for one pair \<^verbatim>\<open>(current_hash, next_hash)\<close>: the result is the lines
  written on standard output and the new value of \<^verbatim>\<open>prev_empty\<close>. \<^verbatim>\<open>print("=", end="")\<close>
  and \<^verbatim>\<open>print(*children)\<close> make one line; \<^verbatim>\<open>print(*parents, end="")\<close> and \<^verbatim>\<open>print("=\n")\<close>
  make a line and an empty line. \<^verbatim>\<open>current_commit\<close> is dereferenced only where the source
  reads an attribute of it. \<^verbatim>\<open>branches\<close> is the dict of \<^verbatim>\<open>build_commit_graph\<close>, read here
  with \<^verbatim>\<open>get\<close>.
\<close>

definition print_body :: "CommitObject list \<Rightarrow> (string \<times> string list) list \<Rightarrow> bool \<Rightarrow> string
    \<Rightarrow> string option \<Rightarrow> error + string list \<times> bool" where
  "print_body cs branches prev_empty current_hash next_hash =
     (let current_commit = grab_corresponding_commit cs current_hash
      in case (if prev_empty
               then (case current_commit of
                       None \<Rightarrow> Inl AttributeError
                     | Some c \<Rightarrow> Inr [''='' @ print_args (children c)])
               else Inr []) of
           Inl e \<Rightarrow> Inl e
         | Inr children_line \<Rightarrow>
             (let hash_line = (case map_of branches current_hash of
                                 None \<Rightarrow> [current_hash]
                               | Some names \<Rightarrow> [print_args (current_hash # names)])
              in case next_hash of
                   None \<Rightarrow> Inr (children_line @ hash_line, False)
                 | Some n \<Rightarrow>
                     (case current_commit of
                        None \<Rightarrow> Inl AttributeError
                      | Some c \<Rightarrow>
                          if n \<notin> set (parents c)
                          then Inr (children_line @ hash_line
                                    @ [print_args (parents c) @ ''='', []], True)
                          else Inr (children_line @ hash_line, False))))"

text \<open>The loop over the pairs, threading \<^verbatim>\<open>prev_empty\<close> and collecting the lines.\<close>

fun print_loop :: "CommitObject list \<Rightarrow> (string \<times> string list) list \<Rightarrow> bool
    \<Rightarrow> (string \<times> string option) list \<Rightarrow> error + string list" where
  "print_loop cs branches prev_empty [] = Inr []"
| "print_loop cs branches prev_empty ((current_hash, next_hash) # rest) =
     (case print_body cs branches prev_empty current_hash next_hash of
        Inl e \<Rightarrow> Inl e
      | Inr (lines, prev_empty') \<Rightarrow>
          (case print_loop cs branches prev_empty' rest of
             Inl e \<Rightarrow> Inl e
           | Inr out \<Rightarrow> Inr (lines @ out)))"

text \<open>
  \<^verbatim>\<open>zip(topo_ordered_commits, topo_ordered_commits[1:] + [None])\<close>: each hash with the one
  that follows it, \<^verbatim>\<open>None\<close> after the last.
\<close>

definition print_sticky_sorted_order :: "string list \<Rightarrow> CommitObject list
    \<Rightarrow> (string \<times> string list) list \<Rightarrow> error + string list" where
  "print_sticky_sorted_order topo_ordered_commits cs branches =
     print_loop cs branches False
       (zip topo_ordered_commits (map Some (drop 1 topo_ordered_commits) @ [None]))"

section \<open>Auxiliary definitions\<close>

definition enter_commit :: "string \<Rightarrow> CommitObject \<Rightarrow> build_state \<Rightarrow> build_state" where
  "enter_commit h commit st =
     st\<lparr>b_visited := (b_visited st)(h \<mapsto> True),
        b_root_commits := (if parents commit = [] then b_root_commits st @ [h]
                           else b_root_commits st)\<rparr>"

definition same_graph :: "CommitObject list \<Rightarrow> CommitObject list \<Rightarrow> bool" where
  "same_graph cs cs' \<longleftrightarrow>
     map commit_hash cs' = map commit_hash cs \<and> map parents cs' = map parents cs
     \<and> map children cs' = map children cs"

definition sort_frame :: "CommitObject list \<Rightarrow> string list \<Rightarrow> nat \<Rightarrow> sort_state \<Rightarrow> bool" where
  "sort_frame cs roots i st \<longleftrightarrow>
     same_graph cs (s_commits st) \<and> s_sorted_list st = take i (s_processing_list st)
     \<and> i \<le> length (s_processing_list st)
     \<and> take (length roots) (s_processing_list st) = roots"

definition two_heads :: "(string \<times> string list) list" where
  "two_heads = [(''b'', [''dev'']), (''a'', [''main''])]"

definition two_roots :: "CommitObject list" where
  "two_roots = [new_commit ''a'' [], new_commit ''b'' []]"

definition chain2 :: "CommitObject list" where
  "chain2 = [\<lparr>commit_hash = ''a'', parents = [], children = [''b''], temp_parents = []\<rparr>,
        \<lparr>commit_hash = ''b'', parents = [''a''], children = [], temp_parents = []\<rparr>]"

definition chain2_sorted :: sort_state where
  "chain2_sorted = \<lparr>s_commits = chain2, s_processing_list = [''a'', ''b''],
     s_sorted_list = [''a'', ''b''], s_stderr = []\<rparr>"

text \<open>
  The spec's ``space-separated'': the items in their order, with one space before every
  item but the first. It is written without reference to \<open>print_args\<close>, to state what the
  formatter's lines must be.
\<close>

definition space_separated :: "string list \<Rightarrow> string" where
  "space_separated xs =
     (case xs of [] \<Rightarrow> [] | x # ys \<Rightarrow> x @ concat (map (\<lambda>y. CHR '' '' # y) ys))"

text \<open>The line of a commit: its hash, followed by its branch names when it has an entry.\<close>

definition hash_line :: "(string \<times> string list) list \<Rightarrow> string \<Rightarrow> string" where
  "hash_line branches h =
     (case map_of branches h of None \<Rightarrow> h | Some names \<Rightarrow> space_separated (h # names))"

definition hash_pairs :: "string list \<Rightarrow> (string \<times> string option) list" where
  "hash_pairs xs = zip xs (map Some (drop 1 xs) @ [None])"

text \<open>Views of a commit list by hash, and the predicates used to state the claims.\<close>

definition hashes :: "CommitObject list \<Rightarrow> string set" where
  "hashes cs = set (map commit_hash cs)"

definition parents_of :: "CommitObject list \<Rightarrow> string \<Rightarrow> string list" where
  "parents_of cs h = (case grab_corresponding_commit cs h of None \<Rightarrow> [] | Some c \<Rightarrow> parents c)"

definition children_of :: "CommitObject list \<Rightarrow> string \<Rightarrow> string list" where
  "children_of cs h = (case grab_corresponding_commit cs h of None \<Rightarrow> [] | Some c \<Rightarrow> children c)"

definition temp_of :: "CommitObject list \<Rightarrow> string \<Rightarrow> string list" where
  "temp_of cs h = (case grab_corresponding_commit cs h of None \<Rightarrow> [] | Some c \<Rightarrow> temp_parents c)"

definition graph_ok :: "CommitObject list \<Rightarrow> string list \<Rightarrow> bool" where
  "graph_ok cs roots \<longleftrightarrow>
     distinct (map commit_hash cs)
     \<and> (\<forall>h \<in> hashes cs. set (children_of cs h) \<subseteq> hashes cs)
     \<and> (\<forall>p \<in> hashes cs. \<forall>c \<in> hashes cs.
           count_list (children_of cs p) c \<le> count_list (parents_of cs c) p)
     \<and> distinct roots
     \<and> (\<forall>r \<in> set roots. r \<in> hashes cs \<and> parents_of cs r = [])"

definition removed :: "CommitObject list \<Rightarrow> string list \<Rightarrow> string \<Rightarrow> string list
    \<Rightarrow> string \<Rightarrow> string \<Rightarrow> nat" where
  "removed cs popped p done q h =
     (if q \<in> set popped then count_list (children_of cs q) h
      else if q = p then count_list done h else 0)"

definition relax_inv :: "CommitObject list \<Rightarrow> nat \<Rightarrow> string \<Rightarrow> string list \<Rightarrow> sort_state \<Rightarrow> bool" where
  "relax_inv cs i p done st \<longleftrightarrow>
     same_graph cs (s_commits st)
     \<and> i \<le> length (s_processing_list st)
     \<and> distinct (s_processing_list st)
     \<and> set (s_processing_list st) \<subseteq> hashes cs
     \<and> (\<forall>h \<in> hashes cs. \<forall>q.
           count_list (temp_of (s_commits st) h) q
             + removed cs (take i (s_processing_list st)) p done q h
           = count_list (parents_of cs h) q)
     \<and> (\<forall>h \<in> set (s_processing_list st). temp_of (s_commits st) h = [])
     \<and> s_stderr st = []
     \<and> (\<forall>j < length (s_processing_list st).
           set (parents_of cs (s_processing_list st ! j)) \<subseteq> set (take j (s_processing_list st)))"

definition sort_inv :: "CommitObject list \<Rightarrow> nat \<Rightarrow> sort_state \<Rightarrow> bool" where
  "sort_inv cs i st \<longleftrightarrow>
     relax_inv cs i [] [] st \<and> s_sorted_list st = take i (s_processing_list st)"

definition parent_rel :: "CommitObject list \<Rightarrow> (string \<times> string) set" where
  "parent_rel cs =
     set (concat (map (\<lambda>h. map (Pair h) (parents_of cs h)) (map commit_hash cs)))"

definition graph_complete :: "CommitObject list \<Rightarrow> string list \<Rightarrow> bool" where
  "graph_complete cs roots \<longleftrightarrow>
     graph_ok cs roots
     \<and> (\<forall>h \<in> hashes cs. set (parents_of cs h) \<subseteq> hashes cs)
     \<and> (\<forall>p \<in> hashes cs. \<forall>c \<in> hashes cs.
           count_list (parents_of cs c) p \<le> count_list (children_of cs p) c)
     \<and> (\<forall>h \<in> hashes cs. parents_of cs h = [] \<longrightarrow> h \<in> set roots)"

definition ready_inv :: "nat \<Rightarrow> sort_state \<Rightarrow> bool" where
  "ready_inv i st \<longleftrightarrow>
     (\<forall>h \<in> hashes (s_commits st). temp_of (s_commits st) h = [] \<longrightarrow> h \<in> set (s_processing_list st))"

definition warning :: string where
  "warning = ''attempting to remove nonexisting parent''"

definition cycle_exit :: error where
  "cycle_exit = SystemExit [''cycle in .git graph detected'']"

definition integrity_exit :: error where
  "integrity_exit = SystemExit [''failure to generate topological sort'']"

definition same_records :: "CommitObject list \<Rightarrow> CommitObject list \<Rightarrow> bool" where
  "same_records cs cs' \<longleftrightarrow>
     map commit_hash cs' = map commit_hash cs \<and> map parents cs' = map parents cs"

definition edges_ok :: "CommitObject list \<Rightarrow> build_state \<Rightarrow> string \<Rightarrow> string list \<Rightarrow> bool" where
  "edges_ok cs0 st h done \<longleftrightarrow>
     (\<forall>p \<in> hashes cs0. \<forall>c.
        count_list (children_of (b_commits st) p) c =
          (if c = h then count_list done p
           else if b_visited st c = Some True then count_list (parents_of cs0 c) p
           else 0))"

definition roots_ok :: "CommitObject list \<Rightarrow> build_state \<Rightarrow> bool" where
  "roots_ok cs0 st \<longleftrightarrow>
     distinct (b_root_commits st)
     \<and> set (b_root_commits st) = {x. b_visited st x = Some True \<and> parents_of cs0 x = []}"

definition link_inv :: "CommitObject list \<Rightarrow> string \<Rightarrow> string list \<Rightarrow> build_state \<Rightarrow> bool" where
  "link_inv cs0 h done st \<longleftrightarrow>
     same_records cs0 (b_commits st) \<and> dom (b_visited st) \<subseteq> hashes cs0
     \<and> b_visited st h = Some True \<and> edges_ok cs0 st h done \<and> roots_ok cs0 st"

definition build_inv :: "CommitObject list \<Rightarrow> nat \<Rightarrow> build_state \<Rightarrow> bool" where
  "build_inv cs0 i st \<longleftrightarrow>
     same_records cs0 (b_commits st) \<and> dom (b_visited st) \<subseteq> hashes cs0
     \<and> (\<forall>p \<in> hashes cs0. \<forall>c.
          count_list (children_of (b_commits st) p) c =
            (if b_visited st c = Some True then count_list (parents_of cs0 c) p else 0))
     \<and> roots_ok cs0 st"

definition stderr_lines :: "error + sort_state \<Rightarrow> string list" where
  "stderr_lines r =
     (case r of Inl AttributeError \<Rightarrow> [] | Inl (SystemExit ls) \<Rightarrow> ls | Inr st \<Rightarrow> s_stderr st)"

definition chain3 :: "CommitObject list" where
  "chain3 = [new_commit ''a'' [], new_commit ''b'' [''a''], new_commit ''c'' [''b'']]"

definition chain3_built :: "CommitObject list" where
  "chain3_built =
     [\<lparr>commit_hash = ''a'', parents = [], children = [''b''], temp_parents = []\<rparr>,
      \<lparr>commit_hash = ''b'', parents = [''a''], children = [''c''], temp_parents = []\<rparr>,
      \<lparr>commit_hash = ''c'', parents = [''b''], children = [], temp_parents = []\<rparr>]"

definition chain3_sorted :: sort_state where
  "chain3_sorted = \<lparr>s_commits = chain3_built, s_processing_list = [''a'', ''b'', ''c''],
     s_sorted_list = [''a'', ''b'', ''c''], s_stderr = []\<rparr>"

definition loop2 :: "CommitObject list" where
  "loop2 = [new_commit ''p'' [''q''], new_commit ''q'' [''p'']]"

definition loop2_built :: "CommitObject list" where
  "loop2_built =
     [\<lparr>commit_hash = ''p'', parents = [''q''], children = [''q''], temp_parents = []\<rparr>,
      \<lparr>commit_hash = ''q'', parents = [''p''], children = [''p''], temp_parents = []\<rparr>]"

definition twice :: "CommitObject list" where
  "twice = [new_commit ''a'' [], new_commit ''c'' [''a'', ''a'']]"

definition twice_built :: "CommitObject list" where
  "twice_built =
     [\<lparr>commit_hash = ''a'', parents = [], children = [''c'', ''c''], temp_parents = []\<rparr>,
      \<lparr>commit_hash = ''c'', parents = [''a'', ''a''], children = [], temp_parents = []\<rparr>]"

definition merge_records :: "CommitObject list" where
  "merge_records =
     [new_commit ''a'' [], new_commit ''b'' [], new_commit ''c'' [],
      new_commit ''m'' [''a'', ''b'', ''c''], new_commit ''d'' [],
      new_commit ''x'' [''d''], new_commit ''y'' [''d'']]"

definition merge_heads :: "(string \<times> string list) list" where
  "merge_heads = [(''m'', [''dev'', ''main'']), (''x'', [''left'']), (''y'', [''right''])]"

definition merge_built :: "CommitObject list" where
  "merge_built =
     [\<lparr>commit_hash = ''a'', parents = [], children = [''m''], temp_parents = []\<rparr>,
      \<lparr>commit_hash = ''b'', parents = [], children = [''m''], temp_parents = []\<rparr>,
      \<lparr>commit_hash = ''c'', parents = [], children = [''m''], temp_parents = []\<rparr>,
      \<lparr>commit_hash = ''m'', parents = [''a'', ''b'', ''c''], children = [], temp_parents = []\<rparr>,
      \<lparr>commit_hash = ''d'', parents = [], children = [''x'', ''y''], temp_parents = []\<rparr>,
      \<lparr>commit_hash = ''x'', parents = [''d''], children = [], temp_parents = []\<rparr>,
      \<lparr>commit_hash = ''y'', parents = [''d''], children = [], temp_parents = []\<rparr>]"

definition stray2 :: "CommitObject list" where
  "stray2 = [new_commit ''u1'' [], new_commit ''u2'' [''a''], new_commit ''a'' []]"


text \<open>A commit and a traversal state without the scratch field \<^verbatim>\<open>temp_parents\<close>.\<close>

definition erase :: "CommitObject \<Rightarrow> CommitObject" where
  "erase c = c\<lparr>temp_parents := []\<rparr>"

definition erase_state :: "build_state \<Rightarrow> build_state" where
  "erase_state st = st\<lparr>b_commits := map erase (b_commits st)\<rparr>"


section \<open>Loop rules\<close>

lemma build_loop_rule:
  assumes "build_loop i st = Inr st'" and "I i st"
    and step: "\<And>i st st'. I i st \<Longrightarrow> i < length (b_processing_list st) \<Longrightarrow>
           build_body (b_processing_list st ! i) st = Inr st' \<Longrightarrow> I (Suc i) st'"
  shows "\<exists>j. I j st' \<and> length (b_processing_list st') \<le> j"
  using assms(1,2)
proof (induction i st rule: build_loop.induct)
  case (1 i st)
  show ?case
  proof (cases "i < length (b_processing_list st)")
    case False
    with "1.prems" have "st' = st" by (simp add: build_loop.simps [of i st])
    with False "1.prems" show ?thesis by auto
  next
    case True
    with "1.prems"(1) obtain st1 where
      b: "build_body (b_processing_list st ! i) st = Inr st1" and r: "build_loop (i + 1) st1 = Inr st'"
      by (auto simp: build_loop.simps [of i st] split: sum.splits)
    have "I (i + 1) st1" using step [OF "1.prems"(2) True b] by simp
    from "1.IH" [OF True b r this] show ?thesis .
  qed
qed

lemma sort_loop_partial_aux:
  assumes step: "\<And>i st st'. I i st \<Longrightarrow> i < length (s_processing_list st) \<Longrightarrow>
           sort_body (s_processing_list st ! i) st = Inr st' \<Longrightarrow> I (Suc i) st'"
    and run: "sort_loop i st = Some r"
  shows "I i st \<longrightarrow> (\<forall>st'. r = Inr st' \<longrightarrow>
      (\<exists>j. I j st' \<and> length (s_processing_list st') \<le> j))"
  using run
proof (induction rule: sort_loop.raw_induct)
  case (1 sl i st r)
  show ?case
  proof (intro impI allI)
    fix st'
    assume inv: "I i st" and r: "r = Inr st'"
    show "\<exists>j. I j st' \<and> length (s_processing_list st') \<le> j"
    proof (cases "i < length (s_processing_list st)")
      case False
      with 1(2) r have "st' = st" by simp
      with False inv show ?thesis by auto
    next
      case True
      with 1(2) r obtain st1 where
        b: "sort_body (s_processing_list st ! i) st = Inr st1" and c: "sl (i + 1) st1 = Some r"
        by (auto split: sum.splits)
      have c2: "sort_loop (i + 1) st1 = Some r"
        using 1(3) True b by (simp add: sort_loop.simps [of i st])
      have "I (i + 1) st1" using step [OF inv True b] by simp
      with 1(1) [OF c c2] r show ?thesis by blast
    qed
  qed
qed (rule run)

lemma sort_loop_partial_rule:
  assumes run: "sort_loop i st = Some (Inr st')" and init: "I i st"
    and step: "\<And>i st st'. I i st \<Longrightarrow> i < length (s_processing_list st) \<Longrightarrow>
           sort_body (s_processing_list st ! i) st = Inr st' \<Longrightarrow> I (Suc i) st'"
  shows "\<exists>j. I j st' \<and> length (s_processing_list st') \<le> j"
  using sort_loop_partial_aux [OF _ run, of I] step init by blast

lemma sort_loop_total_rule:
  assumes "I i st"
    and step: "\<And>i st. I i st \<Longrightarrow> i < length (s_processing_list st) \<Longrightarrow>
           \<exists>st'. sort_body (s_processing_list st ! i) st = Inr st' \<and> I (Suc i) st'"
    and bound: "\<And>i st. I i st \<Longrightarrow> length (s_processing_list st) \<le> N"
  shows "\<exists>st' j. sort_loop i st = Some (Inr st') \<and> I j st' \<and> length (s_processing_list st') \<le> j"
  using assms(1)
proof (induction "N - i" arbitrary: i st rule: less_induct)
  case less
  show ?case
  proof (cases "i < length (s_processing_list st)")
    case False
    then have "sort_loop i st = Some (Inr st)" by (simp add: sort_loop.simps [of i st])
    with False less.prems show ?thesis by auto
  next
    case True
    from step [OF less.prems True] obtain st1 where
      b: "sort_body (s_processing_list st ! i) st = Inr st1" and i1: "I (Suc i) st1" by blast
    have "i < N" using True bound [OF less.prems] by simp
    then have "N - Suc i < N - i" by simp
    from less.hyps [OF this i1] obtain st' j where
      "sort_loop (Suc i) st1 = Some (Inr st')" "I j st'" "length (s_processing_list st') \<le> j"
      by blast
    moreover have "sort_loop i st = sort_loop (Suc i) st1"
      using True b by (simp add: sort_loop.simps [of i st])
    ultimately show ?thesis by auto
  qed
qed

section \<open>Facts about the loop bodies of build\_commit\_graph\<close>

lemma link_parent_prefix:
  "link_parent h p st = Inr st' \<Longrightarrow> \<exists>ys. b_processing_list st' = b_processing_list st @ ys"
  by (cases "b_visited st p = None") (auto dest: link_parent_new(2) link_parent_old(2))

lemma link_parents_prefix:
  "link_parents h ps st = Inr st' \<Longrightarrow> \<exists>ys. b_processing_list st' = b_processing_list st @ ys"
proof (induction ps arbitrary: st)
  case Nil
  then show ?case by simp
next
  case (Cons p ps)
  from Cons.prems obtain st1 where l: "link_parent h p st = Inr st1"
    and r: "link_parents h ps st1 = Inr st'"
    by (auto split: sum.splits)
  from link_parent_prefix [OF l] Cons.IH [OF r] show ?case by auto
qed

lemma build_body_visited: "b_visited st h = Some True \<Longrightarrow> build_body h st = Inr st"
  by (simp add: build_body_def)

lemma build_body_unvisited:
  "b_visited st h \<noteq> Some True \<Longrightarrow>
     build_body h st =
       (case grab_corresponding_commit (b_commits st) h of
          None \<Rightarrow> Inl AttributeError
        | Some commit \<Rightarrow> link_parents h (parents commit) (enter_commit h commit st))"
  by (auto simp: build_body_def enter_commit_def Let_def split: option.splits)

lemma build_body_Inr:
  assumes "build_body h st = Inr st'" and "b_visited st h \<noteq> Some True"
  obtains commit where "grab_corresponding_commit (b_commits st) h = Some commit"
    and "link_parents h (parents commit) (enter_commit h commit st) = Inr st'"
  using assms by (auto simp: build_body_unvisited split: option.splits)

lemma build_body_prefix:
  assumes "build_body h st = Inr st'"
  shows "\<exists>ys. b_processing_list st' = b_processing_list st @ ys"
proof (cases "b_visited st h = Some True")
  case True
  with assms show ?thesis by (simp add: build_body_def)
next
  case False
  from build_body_Inr [OF assms False] obtain commit where
    "link_parents h (parents commit) (enter_commit h commit st) = Inr st'" by blast
  from link_parents_prefix [OF this] show ?thesis by (simp add: enter_commit_def)
qed

section \<open>Seeding of the worklist\<close>

text \<open>
  The worklist is seeded by iterating the dict \<^verbatim>\<open>branches\<close>, with no sort. With the heads
  enumerated as \<open>b\<close>, \<open>a\<close> the seed is \<open>b\<close>, \<open>a\<close>, which is not in lexicographic order,
  and the roots come out in that order too.
\<close>

theorem worklist_follows_enumeration_not_sorted:
  "b_processing_list (build_init two_heads two_roots []) = [''b'', ''a'']
   \<and> \<not> sorted [''b'', ''a'']
   \<and> build_commit_graph two_heads two_roots [] = Inr (two_roots, [''b'', ''a''])"
  by code_simp

text \<open>
  C4, as the code has it: the worklist is seeded with the branch-head hashes in the order
  in which the dict \<^verbatim>\<open>branches\<close> enumerates them (its insertion order). The loop only
  appends to the worklist, so whenever the traversal completes the worklist still begins
  with the heads in that order.
\<close>

theorem worklist_starts_with_enumerated_heads:
  assumes "build_loop 0 (build_init branches cs roots) = Inr st"
  shows "take (length branches) (b_processing_list st) = map fst branches"
proof -
  let ?I = "\<lambda>(i::nat) s. take (length branches) (b_processing_list s) = map fst branches"
  have "\<exists>j. ?I j st \<and> length (b_processing_list st) \<le> j"
  proof (rule build_loop_rule [where I = ?I, OF assms])
    show "?I 0 (build_init branches cs roots)" by (simp add: build_init_def)
  next
    fix i s s'
    assume a: "?I i s" and b: "build_body (b_processing_list s ! i) s = Inr s'"
    from build_body_prefix [OF b] obtain ys where
      ys: "b_processing_list s' = b_processing_list s @ ys" by blast
    have "length branches \<le> length (b_processing_list s)"
      using a by (metis length_map length_take min.cobounded1 min_def nat_le_linear take_all)
    then show "?I (Suc i) s'" using a ys by simp
  qed
  then show ?thesis by blast
qed

theorem worklist_starts_with_enumerated_heads_witness:
  "case build_loop 0 (build_init two_heads two_roots []) of
     Inl e \<Rightarrow> False
   | Inr st \<Rightarrow> take (length two_heads) (b_processing_list st) = map fst two_heads"
proof (cases "build_loop 0 (build_init two_heads two_roots [])")
  case (Inl e)
  have "\<not> isl (build_loop 0 (build_init two_heads two_roots []))" by code_simp
  with Inl show ?thesis by simp
next
  case (Inr st)
  from worklist_starts_with_enumerated_heads [OF Inr] show ?thesis using Inr by simp
qed

section \<open>What topological\_sort changes\<close>

lemma same_graph_refl [simp]: "same_graph cs cs"
  by (simp add: same_graph_def)

lemma same_graph_trans: "same_graph a b \<Longrightarrow> same_graph b c \<Longrightarrow> same_graph a c"
  by (simp add: same_graph_def)

lemma same_graph_update_temp:
  "same_graph cs (update_commit (\<lambda>c. c\<lparr>temp_parents := g c\<rparr>) h cs)"
  by (induction cs) (auto simp: same_graph_def)

lemma same_graph_init: "same_graph cs (map initialize_temp_parents cs)"
  by (induction cs) (auto simp: same_graph_def initialize_temp_parents_def)

lemma relax_child_None:
  "grab_corresponding_commit (s_commits st) child = None \<Longrightarrow>
     relax_child h child st = Inl AttributeError"
  by (simp add: relax_child_def)

lemma relax_child_found:
  "grab_corresponding_commit (s_commits st) child = Some cc \<Longrightarrow> h \<in> set (temp_parents cc) \<Longrightarrow>
     relax_child h child st =
       Inr (st\<lparr>s_commits :=
                update_commit (\<lambda>c. c\<lparr>temp_parents := remove1 h (temp_parents c)\<rparr>)
                  child (s_commits st),
              s_processing_list :=
                (if remove1 h (temp_parents cc) = [] then s_processing_list st @ [child]
                 else s_processing_list st)\<rparr>)"
  by (simp add: relax_child_def Let_def)

lemma relax_child_missing:
  "grab_corresponding_commit (s_commits st) child = Some cc \<Longrightarrow> h \<notin> set (temp_parents cc) \<Longrightarrow>
     relax_child h child st =
       Inr (st\<lparr>s_stderr := s_stderr st @ [''attempting to remove nonexisting parent''],
              s_processing_list :=
                (if temp_parents cc = [] then s_processing_list st @ [child]
                 else s_processing_list st)\<rparr>)"
  by (simp add: relax_child_def Let_def)

lemma relax_child_frame:
  assumes "relax_child h child st = Inr st'"
  shows "same_graph (s_commits st) (s_commits st') \<and> s_sorted_list st' = s_sorted_list st
     \<and> (\<exists>ys. s_processing_list st' = s_processing_list st @ ys)"
proof (cases "grab_corresponding_commit (s_commits st) child")
  case None
  with assms show ?thesis by (simp add: relax_child_None)
next
  case (Some cc)
  show ?thesis
  proof (cases "h \<in> set (temp_parents cc)")
    case True
    from assms show ?thesis
      unfolding relax_child_found [OF Some True] by (auto simp: same_graph_update_temp)
  next
    case False
    from assms show ?thesis
      unfolding relax_child_missing [OF Some False] by auto
  qed
qed

lemma relax_children_frame:
  "relax_children h chs st = Inr st' \<Longrightarrow>
     same_graph (s_commits st) (s_commits st') \<and> s_sorted_list st' = s_sorted_list st
     \<and> (\<exists>ys. s_processing_list st' = s_processing_list st @ ys)"
proof (induction chs arbitrary: st)
  case Nil
  then show ?case by simp
next
  case (Cons child rest)
  from Cons.prems obtain st1 where l: "relax_child h child st = Inr st1"
    and r: "relax_children h rest st1 = Inr st'"
    by (auto split: sum.splits)
  from relax_child_frame [OF l] Cons.IH [OF r] show ?case
    by (auto intro: same_graph_trans)
qed

lemma sort_body_Inr:
  assumes "sort_body h st = Inr st'"
  obtains commit where "grab_corresponding_commit (s_commits st) h = Some commit"
    and "relax_children h (children commit) (st\<lparr>s_sorted_list := s_sorted_list st @ [h]\<rparr>) = Inr st'"
  using assms by (cases "grab_corresponding_commit (s_commits st) h") (auto simp: sort_body_def Let_def)

lemma sort_body_frame:
  assumes "sort_body h st = Inr st'"
  shows "same_graph (s_commits st) (s_commits st')"
    and "s_sorted_list st' = s_sorted_list st @ [h]"
    and "\<exists>ys. s_processing_list st' = s_processing_list st @ ys"
proof -
  obtain commit where "grab_corresponding_commit (s_commits st) h = Some commit"
    and r: "relax_children h (children commit) (st\<lparr>s_sorted_list := s_sorted_list st @ [h]\<rparr>) = Inr st'"
    by (rule sort_body_Inr [OF assms])
  note f = relax_children_frame [OF r]
  from f have "same_graph (s_commits (st\<lparr>s_sorted_list := s_sorted_list st @ [h]\<rparr>)) (s_commits st')"
    by (rule conjunct1)
  then show "same_graph (s_commits st) (s_commits st')" by simp
  from f have "s_sorted_list st' = s_sorted_list (st\<lparr>s_sorted_list := s_sorted_list st @ [h]\<rparr>)"
    by blast
  then show "s_sorted_list st' = s_sorted_list st @ [h]" by simp
  from f have "\<exists>ys. s_processing_list st'
      = s_processing_list (st\<lparr>s_sorted_list := s_sorted_list st @ [h]\<rparr>) @ ys"
    by blast
  then show "\<exists>ys. s_processing_list st' = s_processing_list st @ ys" by simp
qed

lemma sort_frame_step:
  assumes "sort_frame cs roots i st" and lt: "i < length (s_processing_list st)"
    and "sort_body (s_processing_list st ! i) st = Inr st'"
  shows "sort_frame cs roots (Suc i) st'"
proof -
  note f = sort_body_frame [OF assms(3)]
  from f(3) obtain ys where ys: "s_processing_list st' = s_processing_list st @ ys" by blast
  have g: "same_graph cs (s_commits st)" and r: "take (length roots) (s_processing_list st) = roots"
    and s: "s_sorted_list st = take i (s_processing_list st)"
    using assms(1) unfolding sort_frame_def by blast+
  have len: "length roots \<le> length (s_processing_list st)"
    by (metis r length_take min.cobounded1)
  have 1: "same_graph cs (s_commits st')"
    using g f(1) by (rule same_graph_trans)
  have 2: "s_sorted_list st' = take (Suc i) (s_processing_list st')"
    unfolding f(2) s ys using lt by (simp add: take_Suc_conv_app_nth)
  have 3: "Suc i \<le> length (s_processing_list st')"
    unfolding ys using lt by simp
  have 4: "take (length roots) (s_processing_list st') = roots"
    unfolding ys using len r by simp
  from 1 2 3 4 show ?thesis unfolding sort_frame_def by blast
qed

text \<open>
  \<^verbatim>\<open>topological_sort\<close> uses the caller's \<^verbatim>\<open>root_commits\<close> list as its work queue and appends
  to it: for the chain \<open>a\<close>, \<open>b\<close> with the single root \<open>a\<close> the list is \<open>a\<close>, \<open>b\<close> when the
  function returns.
\<close>

theorem sort_appends_to_root_commits:
  "topological_sort chain2 [''a''] = Some (Inr chain2_sorted)
   \<and> s_processing_list chain2_sorted \<noteq> [''a'']"
  by code_simp

text \<open>
  C8, as the code has it: \<^verbatim>\<open>topological_sort\<close> leaves the hash, the \<^verbatim>\<open>parents\<close> and the
  \<^verbatim>\<open>children\<close> of every commit as they were (it rewrites \<^verbatim>\<open>temp_parents\<close> alone), while
  the roots list is its work queue: on return the list still begins with the roots it was
  given and, extended by the function, equals the returned order. The formatter
  \<open>print_sticky_sorted_order\<close> has no state to hand back: its only result is the lines
  it prints.
\<close>

theorem topological_sort_frame:
  assumes "topological_sort cs roots = Some (Inr st)"
  shows "map commit_hash (s_commits st) = map commit_hash cs
     \<and> map parents (s_commits st) = map parents cs
     \<and> map children (s_commits st) = map children cs
     \<and> take (length roots) (s_processing_list st) = roots
     \<and> s_processing_list st = s_sorted_list st"
proof -
  from assms obtain st0 where run: "sort_loop 0 (sort_init cs roots) = Some (Inr st0)"
    and chk: "sort_checks st0 = Inr st"
    by (auto simp: topological_sort_def split: option.splits sum.splits)
  have st: "st = st0" using chk by (auto simp: sort_checks_def split: if_splits)
  have init: "sort_frame cs roots 0 (sort_init cs roots)"
    by (simp add: sort_frame_def sort_init_def same_graph_init)
  have "\<exists>j. sort_frame cs roots j st0 \<and> length (s_processing_list st0) \<le> j"
    by (rule sort_loop_partial_rule [where I = "sort_frame cs roots", OF run init])
      (rule sort_frame_step)
  then obtain j where j: "sort_frame cs roots j st0" "length (s_processing_list st0) \<le> j" by blast
  have g: "same_graph cs (s_commits st0)" and r: "take (length roots) (s_processing_list st0) = roots"
    and s: "s_sorted_list st0 = take j (s_processing_list st0)"
    using j(1) unfolding sort_frame_def by blast+
  have "s_sorted_list st0 = s_processing_list st0"
    unfolding s using j(2) by (rule take_all)
  with g r show ?thesis unfolding st same_graph_def by metis
qed

theorem topological_sort_frame_witness:
  "topological_sort chain2 [''a''] = Some (Inr chain2_sorted)
   \<and> map commit_hash (s_commits chain2_sorted) = map commit_hash chain2
   \<and> map parents (s_commits chain2_sorted) = map parents chain2
   \<and> map children (s_commits chain2_sorted) = map children chain2
   \<and> take (length [''a'']) (s_processing_list chain2_sorted) = [''a'']
   \<and> s_processing_list chain2_sorted = s_sorted_list chain2_sorted"
proof -
  have run: "topological_sort chain2 [''a''] = Some (Inr chain2_sorted)" by code_simp
  from topological_sort_frame [OF run] run show ?thesis by fast
qed

section \<open>Pruning of unreachable commits\<close>

text \<open>
  C5. After the worklist drains the node store should hold exactly the visited commits.
  \<^verbatim>\<open>remove_unvisited_commits\<close> removes from the list it is iterating, so the element that
  slides into the freed position is skipped: of two adjacent unvisited commits the second
  one survives. Here \<open>u1\<close> and \<open>u2\<close> are unreachable from the only branch head \<open>a\<close>, and
  \<open>u2\<close> is still in the node store when the function returns; the sort that follows
  then stops with its integrity message.
\<close>

theorem unvisited_commit_survives:
  "build_commit_graph [(''a'', [''main''])]
       [new_commit ''u1'' [], new_commit ''u2'' [], new_commit ''a'' []] []
     = Inr ([new_commit ''u2'' [], new_commit ''a'' []], [''a''])
   \<and> topological_sort [new_commit ''u2'' [], new_commit ''a'' []] [''a'']
     = Some (Inl (SystemExit [''failure to generate topological sort'']))"
  by code_simp

section \<open>Missing commit objects\<close>

text \<open>
  C6. A branch head or a parent hash without a commit object should end the run with one
  diagnostic line and a non-zero status. \<^verbatim>\<open>grab_corresponding_commit\<close> returns \<^verbatim>\<open>None\<close>
  for such a hash and \<^verbatim>\<open>build_commit_graph\<close> reads an attribute of the result without a
  test: the run ends with an uncaught \<^verbatim>\<open>AttributeError\<close>, not with a message of the
  program. First a branch head \<open>x\<close> with no commit object, then a commit \<open>b\<close> whose parent
  \<open>a\<close> has none.
\<close>

theorem missing_commit_raises_AttributeError:
  "build_commit_graph [(''x'', [''main''])] [new_commit ''a'' []] [] = Inl AttributeError
   \<and> build_commit_graph [(''b'', [''main''])] [new_commit ''b'' [''a'']] [] = Inl AttributeError"
  by code_simp

section \<open>The commit list as a graph\<close>

lemma grab_Some_iff_distinct:
  "distinct (map commit_hash cs) \<Longrightarrow>
     grab_corresponding_commit cs h = Some c \<longleftrightarrow> c \<in> set cs \<and> commit_hash c = h"
  by (induction cs) (auto simp: rev_image_eqI)

lemma grab_in_hashes: "h \<in> hashes cs \<Longrightarrow> \<exists>c. grab_corresponding_commit cs h = Some c"
  by (cases "grab_corresponding_commit cs h") (auto simp: grab_None_iff hashes_def)

lemma grab_hashes: "grab_corresponding_commit cs h = Some c \<Longrightarrow> h \<in> hashes cs"
  using grab_Some_mem [of cs h c] by (auto simp: hashes_def)

lemma grab_update_commit:
  assumes "\<And>c. commit_hash (f c) = commit_hash c"
  shows "grab_corresponding_commit (update_commit f h cs) h' =
     (if h' = h then map_option f (grab_corresponding_commit cs h)
      else grab_corresponding_commit cs h')"
  by (induction cs) (auto simp: assms)

lemma map_hash_update_commit:
  assumes "\<And>c. commit_hash (f c) = commit_hash c"
  shows "map commit_hash (update_commit f h cs) = map commit_hash cs"
  by (induction cs) (auto simp: assms)

lemma hashes_update_commit:
  assumes "\<And>c. commit_hash (f c) = commit_hash c"
  shows "hashes (update_commit f h cs) = hashes cs"
  by (simp add: hashes_def map_hash_update_commit [OF assms])

lemma length_update_commit [simp]: "length (update_commit f h cs) = length cs"
  by (induction cs) auto

lemma same_graph_grab:
  assumes "same_graph cs cs'"
  shows "rel_option (\<lambda>c c'. commit_hash c' = commit_hash c \<and> parents c' = parents c
            \<and> children c' = children c)
          (grab_corresponding_commit cs h) (grab_corresponding_commit cs' h)"
proof -
  have len: "length cs = length cs'"
    using assms by (metis same_graph_def length_map)
  from len assms show ?thesis
    by (induction cs cs' rule: list_induct2) (auto simp: same_graph_def)
qed

lemma same_graph_views:
  assumes "same_graph cs cs'"
  shows "hashes cs' = hashes cs" and "parents_of cs' = parents_of cs"
    and "children_of cs' = children_of cs" and "length cs' = length cs"
    and "map commit_hash cs' = map commit_hash cs"
proof -
  show "hashes cs' = hashes cs" and "map commit_hash cs' = map commit_hash cs"
    using assms by (simp_all add: hashes_def same_graph_def)
  show "length cs' = length cs"
    using assms by (metis same_graph_def length_map)
  show "parents_of cs' = parents_of cs"
  proof
    fix h
    show "parents_of cs' h = parents_of cs h"
      using same_graph_grab [OF assms, of h]
      by (cases "grab_corresponding_commit cs h"; cases "grab_corresponding_commit cs' h")
        (auto simp: parents_of_def)
  qed
  show "children_of cs' = children_of cs"
  proof
    fix h
    show "children_of cs' h = children_of cs h"
      using same_graph_grab [OF assms, of h]
      by (cases "grab_corresponding_commit cs h"; cases "grab_corresponding_commit cs' h")
        (auto simp: children_of_def)
  qed
qed

lemma temp_of_update:
  "temp_of (update_commit (\<lambda>c. c\<lparr>temp_parents := g (temp_parents c)\<rparr>) h cs) h' =
     (if h' = h then g' else temp_of cs h')" if "g' = (case grab_corresponding_commit cs h of None \<Rightarrow> [] | Some c \<Rightarrow> g (temp_parents c))"
  using that by (auto simp: temp_of_def grab_update_commit split: option.splits)

lemma temp_of_init: "temp_of (map initialize_temp_parents cs) h = parents_of cs h"
  by (induction cs) (auto simp: temp_of_def parents_of_def initialize_temp_parents_def)

section \<open>The invariant of the sorting loop\<close>

lemma count_list_remove1:
  "count_list (remove1 p xs) q = (if q = p \<and> p \<in> set xs then count_list xs q - 1 else count_list xs q)"
  by (induction xs) auto

lemma count_list_pos_iff: "0 < count_list xs x \<longleftrightarrow> x \<in> set xs"
  by (metis count_list_0_iff gr0I less_numeral_extra(3))

lemma Nil_iff_count_list: "xs = [] \<longleftrightarrow> (\<forall>q. count_list xs q = 0)"
  by (cases xs) (auto simp: count_list_0_iff)

lemma relax_child_inv:
  assumes ok: "graph_ok cs roots" and inv: "relax_inv cs i p done st"
    and lt: "i < length (s_processing_list st)" and p: "s_processing_list st ! i = p"
    and ch: "children_of cs p = done @ child # rest"
  shows "\<exists>st'. relax_child p child st = Inr st' \<and> relax_inv cs i p (done @ [child]) st'
     \<and> s_sorted_list st' = s_sorted_list st
     \<and> (\<exists>ys. s_processing_list st' = s_processing_list st @ ys)"
proof -
  let ?pl = "s_processing_list st" and ?G = "s_commits st"
  from inv have sg: "same_graph cs ?G" and dpl: "distinct ?pl" and sub: "set ?pl \<subseteq> hashes cs"
    and cnt: "\<And>h q. h \<in> hashes cs \<Longrightarrow>
        count_list (temp_of ?G h) q + removed cs (take i ?pl) p done q h = count_list (parents_of cs h) q"
    and rdy: "\<And>h. h \<in> set ?pl \<Longrightarrow> temp_of ?G h = []"
    and err: "s_stderr st = []"
    and ord: "\<And>j. j < length ?pl \<Longrightarrow> set (parents_of cs (?pl ! j)) \<subseteq> set (take j ?pl)"
    unfolding relax_inv_def by blast+
  note v = same_graph_views [OF sg]
  have pH: "p \<in> hashes cs" using sub lt p by (metis nth_mem subsetD)
  have chH: "child \<in> hashes cs"
    using ok pH ch unfolding graph_ok_def by (metis in_set_conv_decomp subsetD)
  then obtain cc where g: "grab_corresponding_commit ?G child = Some cc"
    using grab_in_hashes [of child ?G] v(1) by auto
  have t: "temp_of ?G child = temp_parents cc" by (simp add: temp_of_def g)
  have pnot: "p \<notin> set (take i ?pl)"
    using dpl lt p by (metis distinct_take id_take_nth_drop distinct_append disjoint_iff list.set_intros(1) not_distinct_conv_prefix append_Cons)
  have rp: "removed cs (take i ?pl) p done p child = count_list done child"
    using pnot by (simp add: removed_def)
  have "count_list (children_of cs p) child \<le> count_list (parents_of cs child) p"
    using ok pH chH unfolding graph_ok_def by blast
  then have "count_list done child + 1 \<le> count_list (parents_of cs child) p"
    unfolding ch by simp
  with cnt [OF chH, of p] rp have pos: "0 < count_list (temp_parents cc) p"
    unfolding t by simp
  then have found: "p \<in> set (temp_parents cc)" by (simp add: count_list_pos_iff)
  define G' where "G' = update_commit (\<lambda>c. c\<lparr>temp_parents := remove1 p (temp_parents c)\<rparr>) child ?G"
  define pl' where "pl' = (if remove1 p (temp_parents cc) = [] then ?pl @ [child] else ?pl)"
  define st' where "st' = st\<lparr>s_commits := G', s_processing_list := pl'\<rparr>"
  have run: "relax_child p child st = Inr st'"
    unfolding relax_child_found [OF g found] st'_def G'_def pl'_def ..
  have sg': "same_graph cs G'"
    unfolding G'_def using sg same_graph_update_temp by (rule same_graph_trans)
  have t': "temp_of G' h = (if h = child then remove1 p (temp_parents cc) else temp_of ?G h)" for h
    unfolding G'_def by (rule temp_of_update) (simp add: g)
  have chnot: "child \<notin> set ?pl"
    using rdy [of child] found t by auto
  have tk: "take i pl' = take i ?pl"
    using lt by (simp add: pl'_def)
  have 1: "i \<le> length pl'" using lt by (simp add: pl'_def)
  have 2: "distinct pl'" using dpl chnot by (simp add: pl'_def)
  have 3: "set pl' \<subseteq> hashes cs" using sub chH by (simp add: pl'_def)
  have 4: "count_list (temp_of G' h) q + removed cs (take i pl') p (done @ [child]) q h
      = count_list (parents_of cs h) q" if "h \<in> hashes cs" for h q
  proof (cases "h = child \<and> q = p")
    case True
    have "removed cs (take i ?pl) p (done @ [child]) p child = count_list done child + 1"
      using pnot by (simp add: removed_def)
    moreover have "count_list (remove1 p (temp_parents cc)) p = count_list (temp_parents cc) p - 1"
      using found by (simp add: count_list_remove1)
    ultimately show ?thesis
      using True cnt [OF chH, of p] rp pos unfolding t' tk t by simp
  next
    case False
    then have "removed cs (take i ?pl) p (done @ [child]) q h = removed cs (take i ?pl) p done q h"
      by (auto simp: removed_def)
    moreover have "count_list (temp_of G' h) q = count_list (temp_of ?G h) q"
      using False t by (auto simp: t' count_list_remove1)
    ultimately show ?thesis using cnt [OF that, of q] unfolding tk by simp
  qed
  have 5: "temp_of G' h = []" if "h \<in> set pl'" for h
  proof (cases "h = child")
    case True
    with that chnot show ?thesis by (auto simp: pl'_def t' split: if_splits)
  next
    case False
    with that have "h \<in> set ?pl" by (auto simp: pl'_def split: if_splits)
    with False rdy show ?thesis by (simp add: t')
  qed
  have 6: "set (parents_of cs (pl' ! j)) \<subseteq> set (take j pl')" if "j < length pl'" for j
  proof (cases "j < length ?pl")
    case True
    then have "pl' ! j = ?pl ! j" "take j pl' = take j ?pl"
      by (auto simp: pl'_def nth_append)
    with ord [OF True] show ?thesis by simp
  next
    case False
    with that have app: "remove1 p (temp_parents cc) = []" and j: "j = length ?pl"
      by (auto simp: pl'_def split: if_splits)
    have "pl' ! j = child" "take j pl' = ?pl" using app j by (auto simp: pl'_def)
    moreover have "set (parents_of cs child) \<subseteq> set ?pl"
    proof
      fix q assume "q \<in> set (parents_of cs child)"
      then have "0 < count_list (parents_of cs child) q" by (simp add: count_list_pos_iff)
      moreover have "count_list (temp_of G' child) q = 0" by (simp add: t' app)
      ultimately have "0 < removed cs (take i ?pl) p (done @ [child]) q child"
        using 4 [OF chH, of q] unfolding tk by simp
      then have "q \<in> set (take i ?pl) \<or> q = p"
        by (auto simp: removed_def split: if_splits)
      then show "q \<in> set ?pl" using lt p by (auto dest: in_set_takeD)
    qed
    ultimately show ?thesis by simp
  qed
  have "relax_inv cs i p (done @ [child]) st'"
    unfolding relax_inv_def st'_def using sg' 1 2 3 4 5 6 err by simp
  moreover have "s_sorted_list st' = s_sorted_list st" by (simp add: st'_def)
  moreover have "\<exists>ys. s_processing_list st' = s_processing_list st @ ys"
    by (simp add: st'_def pl'_def)
  ultimately show ?thesis using run by blast
qed

lemma removed_Nil: "removed cs popped p [] = removed cs popped p' []"
  by (auto simp: removed_def fun_eq_iff)

lemma relax_inv_Nil: "relax_inv cs i p [] st \<longleftrightarrow> relax_inv cs i p' [] st"
  unfolding relax_inv_def removed_Nil [of cs _ p p'] ..

lemma relax_inv_sorted_update:
  "relax_inv cs i p done (st\<lparr>s_sorted_list := xs\<rparr>) \<longleftrightarrow> relax_inv cs i p done st"
  by (simp add: relax_inv_def)

lemma relax_children_inv:
  assumes ok: "graph_ok cs roots"
  shows "relax_inv cs i p done st \<Longrightarrow> i < length (s_processing_list st) \<Longrightarrow>
     s_processing_list st ! i = p \<Longrightarrow> children_of cs p = done @ rest \<Longrightarrow>
     \<exists>st'. relax_children p rest st = Inr st' \<and> relax_inv cs i p (done @ rest) st'
       \<and> s_sorted_list st' = s_sorted_list st
       \<and> (\<exists>ys. s_processing_list st' = s_processing_list st @ ys)"
proof (induction rest arbitrary: "done" st)
  case Nil
  then show ?case by simp
next
  case (Cons child rest)
  from relax_child_inv [OF ok Cons.prems] obtain st1 ys where
    r1: "relax_child p child st = Inr st1" and i1: "relax_inv cs i p (done @ [child]) st1"
    and s1: "s_sorted_list st1 = s_sorted_list st"
    and p1: "s_processing_list st1 = s_processing_list st @ ys"
    by blast
  have lt1: "i < length (s_processing_list st1)" using Cons.prems(2) p1 by simp
  have n1: "s_processing_list st1 ! i = p" using Cons.prems(2,3) p1 by (simp add: nth_append)
  have c1: "children_of cs p = (done @ [child]) @ rest" using Cons.prems(4) by simp
  from Cons.IH [OF i1 lt1 n1 c1] obtain st' zs where
    "relax_children p rest st1 = Inr st'" "relax_inv cs i p ((done @ [child]) @ rest) st'"
    "s_sorted_list st' = s_sorted_list st1" "s_processing_list st' = s_processing_list st1 @ zs"
    by blast
  with r1 s1 p1 show ?case by simp
qed

lemma relax_inv_advance:
  assumes inv: "relax_inv cs i p (children_of cs p) st"
    and lt: "i < length (s_processing_list st)" and p: "s_processing_list st ! i = p"
  shows "relax_inv cs (Suc i) p' [] st"
proof -
  have tk: "take (Suc i) (s_processing_list st) = take i (s_processing_list st) @ [p]"
    using lt p by (simp add: take_Suc_conv_app_nth)
  have "removed cs (take (Suc i) (s_processing_list st)) p' [] q h
      = removed cs (take i (s_processing_list st)) p (children_of cs p) q h" for q h
    unfolding tk by (auto simp: removed_def)
  with inv lt show ?thesis unfolding relax_inv_def by simp
qed

lemma sort_body_inv:
  assumes ok: "graph_ok cs roots" and inv: "sort_inv cs i st"
    and lt: "i < length (s_processing_list st)"
  shows "\<exists>st'. sort_body (s_processing_list st ! i) st = Inr st' \<and> sort_inv cs (Suc i) st'"
proof -
  define p where "p = s_processing_list st ! i"
  define st1 where "st1 = st\<lparr>s_sorted_list := s_sorted_list st @ [p]\<rparr>"
  from inv have ri: "relax_inv cs i p [] st" and so: "s_sorted_list st = take i (s_processing_list st)"
    unfolding sort_inv_def using relax_inv_Nil by blast+
  from ri have sg: "same_graph cs (s_commits st)" and sub: "set (s_processing_list st) \<subseteq> hashes cs"
    unfolding relax_inv_def by blast+
  note v = same_graph_views [OF sg]
  have pH: "p \<in> hashes cs" using sub lt by (auto simp: p_def)
  then obtain pc where g: "grab_corresponding_commit (s_commits st) p = Some pc"
    using grab_in_hashes [of p "s_commits st"] v(1) by auto
  have chp: "children pc = children_of cs p"
    unfolding v(3) [symmetric] by (simp add: children_of_def g)
  have body: "sort_body p st = relax_children p (children_of cs p) st1"
    by (simp add: sort_body_def Let_def st1_def g chp)
  have ri1: "relax_inv cs i p [] st1"
    unfolding st1_def relax_inv_sorted_update by (rule ri)
  have lt1: "i < length (s_processing_list st1)" and n1: "s_processing_list st1 ! i = p"
    using lt by (simp_all add: st1_def p_def)
  from relax_children_inv [OF ok ri1 lt1 n1, of "children_of cs p"] obtain st' ys where
    r: "relax_children p (children_of cs p) st1 = Inr st'"
    and i': "relax_inv cs i p (children_of cs p) st'"
    and s': "s_sorted_list st' = s_sorted_list st1"
    and p': "s_processing_list st' = s_processing_list st1 @ ys"
    by auto
  have lt': "i < length (s_processing_list st')" and n': "s_processing_list st' ! i = p"
    using lt1 n1 p' by (simp_all add: nth_append)
  have "relax_inv cs (Suc i) [] [] st'" by (rule relax_inv_advance [OF i' lt' n'])
  moreover have "s_sorted_list st' = take (Suc i) (s_processing_list st')"
    unfolding s' using lt' n' lt so p' by (simp add: st1_def take_Suc_conv_app_nth p_def)
  ultimately show ?thesis using body r unfolding sort_inv_def p_def by simp
qed

lemma sort_inv_bound:
  assumes "sort_inv cs i st"
  shows "length (s_processing_list st) \<le> length cs"
proof -
  from assms have d: "distinct (s_processing_list st)" and s: "set (s_processing_list st) \<subseteq> hashes cs"
    unfolding sort_inv_def relax_inv_def by blast+
  have "length (s_processing_list st) = card (set (s_processing_list st))"
    using d by (simp add: distinct_card)
  also have "\<dots> \<le> card (hashes cs)" using s by (simp add: card_mono hashes_def)
  also have "\<dots> \<le> length cs" unfolding hashes_def by (metis card_length length_map)
  finally show ?thesis .
qed

lemma sort_inv_init:
  assumes ok: "graph_ok cs roots"
  shows "sort_inv cs 0 (sort_init cs roots)"
proof -
  from ok have dr: "distinct roots" and rt: "\<And>r. r \<in> set roots \<Longrightarrow> r \<in> hashes cs \<and> parents_of cs r = []"
    unfolding graph_ok_def by blast+
  have "same_graph cs (map initialize_temp_parents cs)" by (rule same_graph_init)
  moreover have "removed cs [] [] [] q h = 0" for q h by (simp add: removed_def)
  ultimately show ?thesis
    unfolding sort_inv_def relax_inv_def sort_init_def using dr rt
    by (auto simp: temp_of_init)
qed

lemma sort_loop_terminates:
  assumes ok: "graph_ok cs roots"
  shows "\<exists>st. sort_loop 0 (sort_init cs roots) = Some (Inr st)
     \<and> sort_inv cs (length (s_processing_list st)) st"
proof -
  have "\<exists>st j. sort_loop 0 (sort_init cs roots) = Some (Inr st) \<and> sort_inv cs j st
      \<and> length (s_processing_list st) \<le> j"
  proof (rule sort_loop_total_rule [where I = "sort_inv cs" and N = "length cs"])
    show "sort_inv cs 0 (sort_init cs roots)" by (rule sort_inv_init [OF ok])
  next
    fix i st assume "sort_inv cs i st" "i < length (s_processing_list st)"
    then show "\<exists>st'. sort_body (s_processing_list st ! i) st = Inr st' \<and> sort_inv cs (Suc i) st'"
      by (rule sort_body_inv [OF ok])
  next
    fix i st assume "sort_inv cs i st"
    then show "length (s_processing_list st) \<le> length cs" by (rule sort_inv_bound)
  qed
  then obtain st j where r: "sort_loop 0 (sort_init cs roots) = Some (Inr st)"
    and i: "sort_inv cs j st" and j: "length (s_processing_list st) \<le> j" by blast
  from i have "j \<le> length (s_processing_list st)" unfolding sort_inv_def relax_inv_def by blast
  with j have "j = length (s_processing_list st)" by simp
  with r i show ?thesis by blast
qed

lemma parent_rel_iff: "(h, q) \<in> parent_rel cs \<longleftrightarrow> h \<in> hashes cs \<and> q \<in> set (parents_of cs h)"
  by (auto simp: parent_rel_def hashes_def)

lemma relax_child_ready:
  assumes "relax_child p child st = Inr st'" and "ready_inv i st"
  shows "ready_inv i st'"
proof (cases "grab_corresponding_commit (s_commits st) child")
  case None
  with assms show ?thesis by (simp add: relax_child_None)
next
  case (Some cc)
  have t: "temp_of (s_commits st) child = temp_parents cc" by (simp add: temp_of_def Some)
  show ?thesis
  proof (cases "p \<in> set (temp_parents cc)")
    case True
    define G' where "G' = update_commit (\<lambda>c. c\<lparr>temp_parents := remove1 p (temp_parents c)\<rparr>)
        child (s_commits st)"
    have st': "st' = st\<lparr>s_commits := G', s_processing_list :=
        (if remove1 p (temp_parents cc) = [] then s_processing_list st @ [child]
         else s_processing_list st)\<rparr>"
      using assms(1) unfolding relax_child_found [OF Some True] G'_def by simp
    have h': "hashes G' = hashes (s_commits st)"
      unfolding G'_def by (rule hashes_update_commit) simp
    have t': "temp_of G' h = (if h = child then remove1 p (temp_parents cc) else temp_of (s_commits st) h)" for h
      unfolding G'_def by (rule temp_of_update) (simp add: Some)
    show ?thesis
      using assms(2) unfolding ready_inv_def st' by (auto simp: h' t')
  next
    case False
    have st': "st' = st\<lparr>s_stderr := s_stderr st @ [''attempting to remove nonexisting parent''],
        s_processing_list := (if temp_parents cc = [] then s_processing_list st @ [child]
                              else s_processing_list st)\<rparr>"
      using assms(1) unfolding relax_child_missing [OF Some False] by simp
    show ?thesis
      using assms(2) unfolding ready_inv_def st' by auto
  qed
qed

lemma relax_children_ready:
  "relax_children p chs st = Inr st' \<Longrightarrow> ready_inv i st \<Longrightarrow> ready_inv i st'"
proof (induction chs arbitrary: st)
  case Nil
  then show ?case by simp
next
  case (Cons child rest)
  from Cons.prems(1) obtain st1 where l: "relax_child p child st = Inr st1"
    and r: "relax_children p rest st1 = Inr st'"
    by (auto split: sum.splits)
  from Cons.IH [OF r relax_child_ready [OF l Cons.prems(2)]] show ?case .
qed

lemma sort_body_ready:
  assumes "ready_inv i st" and "i < length (s_processing_list st)"
    and "sort_body (s_processing_list st ! i) st = Inr st'"
  shows "ready_inv (Suc i) st'"
proof -
  obtain commit where
    "grab_corresponding_commit (s_commits st) (s_processing_list st ! i) = Some commit" and
    "relax_children (s_processing_list st ! i) (children commit)
       (st\<lparr>s_sorted_list := s_sorted_list st @ [s_processing_list st ! i]\<rparr>) = Inr st'"
    by (rule sort_body_Inr [OF assms(3)])
  note this(2)
  moreover have "ready_inv i (st\<lparr>s_sorted_list := s_sorted_list st @ [s_processing_list st ! i]\<rparr>)"
    using assms(1) by (simp add: ready_inv_def)
  ultimately have "ready_inv i st'" by (rule relax_children_ready)
  then show ?thesis by (simp add: ready_inv_def)
qed

lemma sort_loop_ready:
  assumes run: "sort_loop 0 (sort_init cs roots) = Some (Inr st)"
    and rts: "\<forall>h \<in> hashes cs. parents_of cs h = [] \<longrightarrow> h \<in> set roots"
  shows "ready_inv 0 st"
proof -
  have init: "ready_inv 0 (sort_init cs roots)"
    using rts same_graph_views(1) [OF same_graph_init, of cs]
    by (simp add: ready_inv_def sort_init_def temp_of_init)
  have "\<exists>j. ready_inv j st \<and> length (s_processing_list st) \<le> j"
    by (rule sort_loop_partial_rule [where I = ready_inv, OF run init]) (rule sort_body_ready)
  then show ?thesis by (auto simp: ready_inv_def)
qed

text \<open>Consequences of the invariant at the end of the loop.\<close>

lemma ancestors_before:
  assumes ord: "\<And>j. j < length pl \<Longrightarrow> set (parents_of cs (pl ! j)) \<subseteq> set (take j pl)"
    and anc: "(h, q) \<in> (parent_rel cs)\<^sup>+"
  shows "j < length pl \<Longrightarrow> pl ! j = h \<Longrightarrow> \<exists>k<j. pl ! k = q"
  using anc
proof (induction arbitrary: j rule: trancl_induct)
  case (base q)
  then have "q \<in> set (parents_of cs (pl ! j))" by (simp add: parent_rel_iff)
  with ord [OF base.prems(1)] have "q \<in> set (take j pl)" by blast
  then show ?case by (auto simp: in_set_conv_nth)
next
  case (step q r)
  from step.IH [OF step.prems] obtain k where k: "k < j" "pl ! k = q" by blast
  have kl: "k < length pl" using k(1) step.prems(1) by simp
  from step.hyps(2) have "r \<in> set (parents_of cs (pl ! k))" by (simp add: parent_rel_iff k(2))
  with ord [OF kl] have "r \<in> set (take k pl)" by blast
  then obtain m where m: "m < k" "pl ! m = r" by (auto simp: in_set_conv_nth)
  from m(1) k(1) have "m < j" by simp
  with m(2) show ?case by blast
qed

lemma cycle_not_popped:
  assumes ord: "\<And>j. j < length pl \<Longrightarrow> set (parents_of cs (pl ! j)) \<subseteq> set (take j pl)"
    and d: "distinct pl" and cyc: "(h, h) \<in> (parent_rel cs)\<^sup>+"
  shows "h \<notin> set pl"
proof
  assume "h \<in> set pl"
  then obtain j where j: "j < length pl" "pl ! j = h" by (auto simp: in_set_conv_nth)
  from ancestors_before [OF ord cyc j] obtain k where k: "k < j" "pl ! k = h" by blast
  with j d show False by (metis less_trans nat_neq_iff nth_eq_iff_index_eq)
qed

lemma temp_nonempty_iff:
  assumes "distinct (map commit_hash G)"
  shows "(\<exists>c \<in> set G. temp_parents c \<noteq> []) \<longleftrightarrow> (\<exists>h \<in> hashes G. temp_of G h \<noteq> [])"
proof
  assume "\<exists>c \<in> set G. temp_parents c \<noteq> []"
  then obtain c where c: "c \<in> set G" "temp_parents c \<noteq> []" by blast
  then have "grab_corresponding_commit G (commit_hash c) = Some c"
    using grab_Some_iff_distinct [OF assms] by blast
  then have "temp_of G (commit_hash c) \<noteq> []" using c(2) by (simp add: temp_of_def)
  moreover have "commit_hash c \<in> hashes G" using c(1) by (simp add: hashes_def)
  ultimately show "\<exists>h \<in> hashes G. temp_of G h \<noteq> []" by blast
next
  assume "\<exists>h \<in> hashes G. temp_of G h \<noteq> []"
  then obtain h where h: "temp_of G h \<noteq> []" by blast
  then obtain c where "grab_corresponding_commit G h = Some c" "temp_parents c \<noteq> []"
    by (cases "grab_corresponding_commit G h") (auto simp: temp_of_def)
  then show "\<exists>c \<in> set G. temp_parents c \<noteq> []"
    using grab_Some_mem by blast
qed

lemma sort_inv_final:
  assumes "sort_inv cs (length (s_processing_list st)) st"
  shows "same_graph cs (s_commits st)" and "distinct (s_processing_list st)"
    and "set (s_processing_list st) \<subseteq> hashes cs"
    and "\<And>h q. h \<in> hashes cs \<Longrightarrow>
          count_list (temp_of (s_commits st) h) q
            + (if q \<in> set (s_processing_list st) then count_list (children_of cs q) h else 0)
          = count_list (parents_of cs h) q"
    and "\<And>h. h \<in> set (s_processing_list st) \<Longrightarrow> temp_of (s_commits st) h = []"
    and "s_stderr st = []"
    and "\<And>j. j < length (s_processing_list st) \<Longrightarrow>
          set (parents_of cs (s_processing_list st ! j)) \<subseteq> set (take j (s_processing_list st))"
    and "s_sorted_list st = s_processing_list st"
proof -
  from assms have r: "relax_inv cs (length (s_processing_list st)) [] [] st"
    and s: "s_sorted_list st = take (length (s_processing_list st)) (s_processing_list st)"
    unfolding sort_inv_def by blast+
  from s show "s_sorted_list st = s_processing_list st" by simp
  from r show "same_graph cs (s_commits st)" and "distinct (s_processing_list st)"
    and "set (s_processing_list st) \<subseteq> hashes cs" and "s_stderr st = []"
    unfolding relax_inv_def by blast+
  from r show "\<And>h. h \<in> set (s_processing_list st) \<Longrightarrow> temp_of (s_commits st) h = []"
    unfolding relax_inv_def by blast
  from r show "\<And>j. j < length (s_processing_list st) \<Longrightarrow>
          set (parents_of cs (s_processing_list st ! j)) \<subseteq> set (take j (s_processing_list st))"
    unfolding relax_inv_def by blast
  fix h q assume "h \<in> hashes cs"
  with r have "count_list (temp_of (s_commits st) h) q
      + removed cs (take (length (s_processing_list st)) (s_processing_list st)) [] [] q h
      = count_list (parents_of cs h) q"
    unfolding relax_inv_def by blast
  then show "count_list (temp_of (s_commits st) h) q
            + (if q \<in> set (s_processing_list st) then count_list (children_of cs q) h else 0)
          = count_list (parents_of cs h) q"
    by (simp add: removed_def split: if_splits)
qed

lemma sort_stderr_clean:
  assumes ok: "graph_ok cs roots"
  shows "(\<exists>st. topological_sort cs roots = Some (Inr st) \<and> s_stderr st = [])
     \<or> topological_sort cs roots = Some (Inl cycle_exit)
     \<or> topological_sort cs roots = Some (Inl integrity_exit)"
proof -
  from sort_loop_terminates [OF ok] obtain st where
    run: "sort_loop 0 (sort_init cs roots) = Some (Inr st)"
    and inv: "sort_inv cs (length (s_processing_list st)) st" by blast
  note f = sort_inv_final [OF inv]
  have ts: "topological_sort cs roots = Some (sort_checks st)"
    by (simp add: topological_sort_def run)
  show ?thesis
    unfolding ts sort_checks_def cycle_exit_def integrity_exit_def using f(6) by auto
qed

lemma sort_cycle_exit:
  assumes ok: "graph_ok cs roots" and cyc: "(h, h) \<in> (parent_rel cs)\<^sup>+"
  shows "topological_sort cs roots = Some (Inl (SystemExit [''cycle in .git graph detected'']))"
proof -
  from sort_loop_terminates [OF ok] obtain st where
    run: "sort_loop 0 (sort_init cs roots) = Some (Inr st)"
    and inv: "sort_inv cs (length (s_processing_list st)) st" by blast
  note f = sort_inv_final [OF inv]
  note v = same_graph_views [OF f(1)]
  from cyc obtain q where hq: "(h, q) \<in> parent_rel cs" and qh: "(q, h) \<in> (parent_rel cs)\<^sup>*"
    by (meson tranclD)
  then have "(q, q) \<in> (parent_rel cs)\<^sup>+" by (rule rtrancl_into_trancl1 [rotated])
  have qn: "q \<notin> set (s_processing_list st)"
  proof (rule cycle_not_popped [where cs = cs])
    show "distinct (s_processing_list st)" by (rule f(2))
    show "(q, q) \<in> (parent_rel cs)\<^sup>+" by fact
    show "\<And>j. j < length (s_processing_list st) \<Longrightarrow>
        set (parents_of cs (s_processing_list st ! j)) \<subseteq> set (take j (s_processing_list st))"
      by (rule f(7))
  qed
  from hq have hH: "h \<in> hashes cs" and qp: "q \<in> set (parents_of cs h)"
    by (simp_all add: parent_rel_iff)
  from f(4) [OF hH, of q] qn have "count_list (temp_of (s_commits st) h) q = count_list (parents_of cs h) q"
    by simp
  with qp have "temp_of (s_commits st) h \<noteq> []"
    by (metis count_list_0_iff empty_iff list.set(1))
  moreover have "distinct (map commit_hash (s_commits st))"
    using ok unfolding v(5) graph_ok_def by blast
  ultimately have "\<exists>c \<in> set (s_commits st). temp_parents c \<noteq> []"
    using temp_nonempty_iff hH v(1) by blast
  then show ?thesis
    by (simp add: topological_sort_def run sort_checks_def f(6))
qed

section \<open>Correctness of topological\_sort\<close>

lemma finite_parent_rel: "finite (parent_rel cs)"
proof -
  have "parent_rel cs \<subseteq> hashes cs \<times> (\<Union>h \<in> hashes cs. set (parents_of cs h))"
    by (auto simp: parent_rel_iff)
  moreover have "finite (hashes cs \<times> (\<Union>h \<in> hashes cs. set (parents_of cs h)))"
    by (simp add: hashes_def)
  ultimately show ?thesis by (rule finite_subset)
qed

lemma parents_of_mem:
  assumes "distinct (map commit_hash cs)" and "c \<in> set cs"
  shows "parents_of cs (commit_hash c) = parents c"
  using grab_Some_iff_distinct [OF assms(1), of "commit_hash c" c] assms(2)
  by (simp add: parents_of_def)

text \<open>
  When the commit list is a complete graph (distinct hashes, every parent and child a
  commit of the list, children lists mirroring the parents lists, the roots list holding
  exactly the commits without parents) and the parent relation is acyclic, the sort
  returns an order that holds every hash once, each parent before its children.
\<close>

lemma sort_complete_graph:
  assumes gc: "graph_complete cs roots" and ac: "acyclic (parent_rel cs)"
  shows "\<exists>st. topological_sort cs roots = Some (Inr st)
     \<and> length (s_sorted_list st) = length cs
     \<and> distinct (s_sorted_list st)
     \<and> set (s_sorted_list st) = hashes cs
     \<and> (\<forall>c \<in> set cs. \<forall>p \<in> set (parents c).
           \<exists>i j. i < j \<and> j < length (s_sorted_list st)
             \<and> s_sorted_list st ! i = p \<and> s_sorted_list st ! j = commit_hash c)"
proof -
  from gc have ok: "graph_ok cs roots"
    and pin: "\<And>h. h \<in> hashes cs \<Longrightarrow> set (parents_of cs h) \<subseteq> hashes cs"
    and full: "\<And>p c. p \<in> hashes cs \<Longrightarrow> c \<in> hashes cs \<Longrightarrow>
        count_list (parents_of cs c) p \<le> count_list (children_of cs p) c"
    and rts: "\<forall>h \<in> hashes cs. parents_of cs h = [] \<longrightarrow> h \<in> set roots"
    unfolding graph_complete_def by blast+
  from ok have dh: "distinct (map commit_hash cs)" unfolding graph_ok_def by blast
  from sort_loop_terminates [OF ok] obtain st where
    run: "sort_loop 0 (sort_init cs roots) = Some (Inr st)"
    and inv: "sort_inv cs (length (s_processing_list st)) st" by blast
  note f = sort_inv_final [OF inv]
  note v = same_graph_views [OF f(1)]
  let ?pl = "s_processing_list st"
  have rdy: "\<And>h. h \<in> hashes cs \<Longrightarrow> temp_of (s_commits st) h = [] \<Longrightarrow> h \<in> set ?pl"
    using sort_loop_ready [OF run rts] unfolding ready_inv_def v(1) by blast
  have wf: "wf ((parent_rel cs)\<inverse>)"
    using finite_parent_rel ac by (rule finite_acyclic_wf_converse)
  have all: "h \<in> hashes cs \<longrightarrow> h \<in> set ?pl" for h
  proof (induction h rule: wf_induct_rule [OF wf])
    case (1 h)
    show ?case
    proof
      assume hH: "h \<in> hashes cs"
      have "count_list (temp_of (s_commits st) h) q = 0" for q
      proof (cases "q \<in> set (parents_of cs h)")
        case True
        then have qH: "q \<in> hashes cs" using pin [OF hH] by blast
        have "(q, h) \<in> (parent_rel cs)\<inverse>" using True hH by (simp add: parent_rel_iff)
        from 1 [OF this] qH have "q \<in> set ?pl" by blast
        with f(4) [OF hH, of q] full [OF qH hH] show ?thesis by simp
      next
        case False
        then have "count_list (parents_of cs h) q = 0" by (simp add: count_list_0_iff)
        with f(4) [OF hH, of q] show ?thesis by simp
      qed
      then have "temp_of (s_commits st) h = []" by (simp add: Nil_iff_count_list)
      with rdy [OF hH] show "h \<in> set ?pl" .
    qed
  qed
  then have seteq: "set ?pl = hashes cs" using f(3) by blast
  have len: "length ?pl = length cs"
  proof -
    have "length ?pl = card (set ?pl)" using f(2) by (simp add: distinct_card)
    also have "\<dots> = card (set (map commit_hash cs))" unfolding seteq hashes_def ..
    also have "\<dots> = length cs" using dh by (metis distinct_card length_map)
    finally show ?thesis .
  qed
  have notemp: "\<not> (\<exists>c \<in> set (s_commits st). temp_parents c \<noteq> [])"
  proof -
    have "distinct (map commit_hash (s_commits st))" unfolding v(5) by (rule dh)
    moreover have "\<not> (\<exists>h \<in> hashes (s_commits st). temp_of (s_commits st) h \<noteq> [])"
      unfolding v(1) using f(5) seteq by blast
    ultimately show ?thesis using temp_nonempty_iff by blast
  qed
  have ts: "topological_sort cs roots = Some (Inr st)"
    using notemp len by (simp add: topological_sort_def run sort_checks_def f(8) v(4))
  have order: "\<exists>i j. i < j \<and> j < length ?pl \<and> ?pl ! i = p \<and> ?pl ! j = commit_hash c"
    if c: "c \<in> set cs" and p: "p \<in> set (parents c)" for c p
  proof -
    have "commit_hash c \<in> set ?pl" unfolding seteq using c by (simp add: hashes_def)
    then obtain j where j: "j < length ?pl" "?pl ! j = commit_hash c"
      by (auto simp: in_set_conv_nth)
    have "p \<in> set (parents_of cs (?pl ! j))"
      unfolding j(2) parents_of_mem [OF dh c] by (rule p)
    with f(7) [OF j(1)] have "p \<in> set (take j ?pl)" by blast
    then obtain i where "i < j" "?pl ! i = p" by (auto simp: in_set_conv_nth)
    with j show ?thesis by blast
  qed
  have "topological_sort cs roots = Some (Inr st)
     \<and> length (s_sorted_list st) = length cs
     \<and> distinct (s_sorted_list st)
     \<and> set (s_sorted_list st) = hashes cs
     \<and> (\<forall>c \<in> set cs. \<forall>p \<in> set (parents c).
           \<exists>i j. i < j \<and> j < length (s_sorted_list st)
             \<and> s_sorted_list st ! i = p \<and> s_sorted_list st ! j = commit_hash c)"
    unfolding f(8) using ts len f(2) seteq order by (intro conjI ballI) assumption+
  then show ?thesis by (rule exI)
qed

section \<open>The invariant of the traversal\<close>

lemma same_records_refl [simp]: "same_records cs cs"
  by (simp add: same_records_def)

lemma same_records_trans: "same_records a b \<Longrightarrow> same_records b c \<Longrightarrow> same_records a c"
  by (simp add: same_records_def)

lemma same_records_update_children:
  "same_records cs (update_commit (\<lambda>c. c\<lparr>children := g c\<rparr>) h cs)"
  by (induction cs) (auto simp: same_records_def)

lemma same_records_grab:
  assumes "same_records cs cs'"
  shows "rel_option (\<lambda>c c'. commit_hash c' = commit_hash c \<and> parents c' = parents c)
          (grab_corresponding_commit cs h) (grab_corresponding_commit cs' h)"
proof -
  have len: "length cs = length cs'"
    using assms by (metis same_records_def length_map)
  from len assms show ?thesis
    by (induction cs cs' rule: list_induct2) (auto simp: same_records_def)
qed

lemma same_records_views:
  assumes "same_records cs cs'"
  shows "hashes cs' = hashes cs" and "parents_of cs' = parents_of cs"
    and "map commit_hash cs' = map commit_hash cs"
proof -
  show "hashes cs' = hashes cs" and "map commit_hash cs' = map commit_hash cs"
    using assms by (simp_all add: hashes_def same_records_def)
  show "parents_of cs' = parents_of cs"
  proof
    fix h
    show "parents_of cs' h = parents_of cs h"
      using same_records_grab [OF assms, of h]
      by (cases "grab_corresponding_commit cs h"; cases "grab_corresponding_commit cs' h")
        (auto simp: parents_of_def)
  qed
qed

lemma children_of_update:
  "children_of (update_commit (\<lambda>c. c\<lparr>children := children c @ [h]\<rparr>) p cs) p' =
     (if p' = p \<and> p \<in> hashes cs then children_of cs p @ [h] else children_of cs p')"
proof (cases "grab_corresponding_commit cs p")
  case None
  then have "p \<notin> hashes cs" by (simp add: grab_None_iff hashes_def)
  with None show ?thesis by (simp add: children_of_def grab_update_commit)
next
  case (Some c)
  then have "p \<in> hashes cs" by (rule grab_hashes)
  with Some show ?thesis by (simp add: children_of_def grab_update_commit)
qed

lemma link_parent_inv:
  assumes inv: "link_inv cs0 h done st" and run: "link_parent h p st = Inr st'"
  shows "link_inv cs0 h (done @ [p]) st'"
proof -
  from inv have sr: "same_records cs0 (b_commits st)" and dv: "dom (b_visited st) \<subseteq> hashes cs0"
    and vh: "b_visited st h = Some True" and eo: "edges_ok cs0 st h done" and ro: "roots_ok cs0 st"
    unfolding link_inv_def by blast+
  note v = same_records_views [OF sr]
  from link_parent_grab [OF run] obtain pc where "grab_corresponding_commit (b_commits st) p = Some pc"
    by blast
  then have pH: "p \<in> hashes cs0" using grab_hashes v(1) by blast
  have cs': "b_commits st' = update_commit (\<lambda>c. c\<lparr>children := children c @ [h]\<rparr>) p (b_commits st)"
    and rt': "b_root_commits st' = b_root_commits st"
    using link_parent_new(3,4) [OF run] link_parent_old(3,4) [OF run]
    by (cases "b_visited st p = None"; simp)+
  have vis': "b_visited st' x = Some True \<longleftrightarrow> b_visited st x = Some True" for x
    using link_parent_new(1) [OF run] link_parent_old(1) [OF run]
    by (cases "b_visited st p = None") auto
  have dom': "dom (b_visited st') \<subseteq> hashes cs0"
    using link_parent_new(1) [OF run] link_parent_old(1) [OF run] dv pH
    by (cases "b_visited st p = None") auto
  have 1: "same_records cs0 (b_commits st')"
    unfolding cs' using sr same_records_update_children by (rule same_records_trans)
  have 2: "edges_ok cs0 st' h (done @ [p])"
    unfolding edges_ok_def
  proof (intro ballI allI)
    fix p' c assume p': "p' \<in> hashes cs0"
    have "count_list (children_of (b_commits st) p') c =
          (if c = h then count_list done p'
           else if b_visited st c = Some True then count_list (parents_of cs0 c) p'
           else 0)"
      using eo p' unfolding edges_ok_def by blast
    then show "count_list (children_of (b_commits st') p') c =
          (if c = h then count_list (done @ [p]) p'
           else if b_visited st' c = Some True then count_list (parents_of cs0 c) p'
           else 0)"
      unfolding cs' children_of_update vis' using pH v(1) by auto
  qed
  have 3: "roots_ok cs0 st'"
    using ro unfolding roots_ok_def rt' vis' .
  have 4: "b_visited st' h = Some True" using vh vis' by simp
  show ?thesis
    unfolding link_inv_def using 1 dom' 4 2 3 by (intro conjI)
qed

lemma link_parents_inv:
  "link_inv cs0 h done st \<Longrightarrow> link_parents h ps st = Inr st' \<Longrightarrow> link_inv cs0 h (done @ ps) st'"
proof (induction ps arbitrary: "done" st)
  case Nil
  then show ?case by simp
next
  case (Cons p ps)
  from Cons.prems(2) obtain st1 where l: "link_parent h p st = Inr st1"
    and r: "link_parents h ps st1 = Inr st'"
    by (auto split: sum.splits)
  from Cons.IH [OF link_parent_inv [OF Cons.prems(1) l] r] show ?case by simp
qed

lemma build_body_inv:
  assumes inv: "build_inv cs0 i st" and run: "build_body h st = Inr st'"
  shows "build_inv cs0 (Suc i) st'"
proof (cases "b_visited st h = Some True")
  case True
  with run have "st' = st" by (simp add: build_body_visited)
  with inv show ?thesis by (simp add: build_inv_def)
next
  case False
  from inv have sr: "same_records cs0 (b_commits st)" and dv: "dom (b_visited st) \<subseteq> hashes cs0"
    and eo: "\<And>p c. p \<in> hashes cs0 \<Longrightarrow> count_list (children_of (b_commits st) p) c =
            (if b_visited st c = Some True then count_list (parents_of cs0 c) p else 0)"
    and ro: "roots_ok cs0 st"
    unfolding build_inv_def by blast+
  note v = same_records_views [OF sr]
  obtain commit where g: "grab_corresponding_commit (b_commits st) h = Some commit"
    and l: "link_parents h (parents commit) (enter_commit h commit st) = Inr st'"
    by (rule build_body_Inr [OF run False])
  have hH: "h \<in> hashes cs0" using grab_hashes [OF g] v(1) by simp
  have pc: "parents commit = parents_of cs0 h"
    unfolding v(2) [symmetric] by (simp add: parents_of_def g)
  let ?st1 = "enter_commit h commit st"
  have hnr: "h \<notin> set (b_root_commits st)"
    using ro False unfolding roots_ok_def by blast
  have f1: "b_commits ?st1 = b_commits st" and f2: "b_visited ?st1 = (b_visited st)(h \<mapsto> True)"
    and f3: "b_root_commits ?st1 = (if parents_of cs0 h = [] then b_root_commits st @ [h]
        else b_root_commits st)"
    by (simp_all add: enter_commit_def pc)
  have e1: "edges_ok cs0 ?st1 h []"
    unfolding edges_ok_def f1 f2
  proof (intro ballI allI)
    fix p c assume "p \<in> hashes cs0"
    from eo [OF this, of c] False
    show "count_list (children_of (b_commits st) p) c =
          (if c = h then count_list [] p
           else if ((b_visited st)(h \<mapsto> True)) c = Some True then count_list (parents_of cs0 c) p
           else 0)"
      by (cases "c = h") simp_all
  qed
  have r1: "roots_ok cs0 ?st1"
  proof -
    from ro have d: "distinct (b_root_commits st)"
      and s: "set (b_root_commits st) = {x. b_visited st x = Some True \<and> parents_of cs0 x = []}"
      unfolding roots_ok_def by blast+
    have "distinct (b_root_commits ?st1)" unfolding f3 using d hnr by simp
    moreover have "set (b_root_commits ?st1)
        = {x. ((b_visited st)(h \<mapsto> True)) x = Some True \<and> parents_of cs0 x = []}"
    proof (cases "parents_of cs0 h = []")
      case True
      then show ?thesis unfolding f3 using s by auto
    next
      case nonempty: False
      then show ?thesis unfolding f3 using s by auto
    qed
    ultimately show ?thesis unfolding roots_ok_def f2 by blast
  qed
  have "link_inv cs0 h [] ?st1"
    unfolding link_inv_def
  proof (intro conjI)
    show "same_records cs0 (b_commits ?st1)" unfolding f1 by (rule sr)
    show "dom (b_visited ?st1) \<subseteq> hashes cs0" unfolding f2 using dv hH by auto
    show "b_visited ?st1 h = Some True" unfolding f2 by simp
    show "edges_ok cs0 ?st1 h []" by (rule e1)
    show "roots_ok cs0 ?st1" by (rule r1)
  qed
  from link_parents_inv [OF this l] have li: "link_inv cs0 h (parents_of cs0 h) st'"
    by (simp add: pc)
  then have "edges_ok cs0 st' h (parents_of cs0 h)" and vh: "b_visited st' h = Some True"
    unfolding link_inv_def by blast+
  then have e: "\<forall>p \<in> hashes cs0. \<forall>c. count_list (children_of (b_commits st') p) c =
            (if b_visited st' c = Some True then count_list (parents_of cs0 c) p else 0)"
    unfolding edges_ok_def by auto
  from li have "same_records cs0 (b_commits st')" "dom (b_visited st') \<subseteq> hashes cs0"
    "roots_ok cs0 st'"
    unfolding link_inv_def by simp_all
  with e show ?thesis unfolding build_inv_def by (intro conjI)
qed

lemma build_loop_inv:
  assumes kids: "\<forall>c \<in> set cs. children c = []"
    and run: "build_loop 0 (build_init branches cs []) = Inr st"
  shows "build_inv cs 0 st"
proof -
  have co: "children_of cs p = []" for p
    using kids grab_Some_mem [of cs p]
    by (cases "grab_corresponding_commit cs p") (auto simp: children_of_def)
  have init: "build_inv cs 0 (build_init branches cs [])"
    by (simp add: build_inv_def build_init_def roots_ok_def co)
  have "\<exists>j. build_inv cs j st \<and> length (b_processing_list st) \<le> j"
    by (rule build_loop_rule [where I = "build_inv cs", OF run init]) (rule build_body_inv)
  then show ?thesis by (auto simp: build_inv_def)
qed

section \<open>The graph that build\_commit\_graph returns\<close>

lemma map_hash_remove_commit:
  "map commit_hash (remove_commit h cs) = remove1 h (map commit_hash cs)"
  by (induction cs) auto

lemma set_remove_commit: "set (remove_commit h cs) \<subseteq> set cs"
  by (induction cs) auto

lemma remove_commit_keeps: "c \<in> set cs \<Longrightarrow> commit_hash c \<noteq> h \<Longrightarrow> c \<in> set (remove_commit h cs)"
  by (induction cs) auto

lemma remove_unvisited_loop_props:
  "distinct (map commit_hash cs) \<Longrightarrow>
     distinct (map commit_hash (remove_unvisited_loop i cs vis))
     \<and> set (remove_unvisited_loop i cs vis) \<subseteq> set cs
     \<and> (\<forall>c \<in> set cs. vis (commit_hash c) \<noteq> None \<longrightarrow> c \<in> set (remove_unvisited_loop i cs vis))"
proof (induction i cs vis rule: remove_unvisited_loop.induct)
  case (1 i cs vis)
  show ?case
  proof (cases "i < length cs")
    case False
    then show ?thesis using "1.prems" by (simp add: remove_unvisited_loop.simps [of i cs])
  next
    case True
    define c where "c = cs ! i"
    show ?thesis
    proof (cases "vis (commit_hash c) = None")
      case unvisited: True
      let ?cs' = "remove_commit (commit_hash c) cs"
      have d: "distinct (map commit_hash ?cs')"
        using "1.prems" by (simp add: map_hash_remove_commit)
      have eq: "remove_unvisited_loop i cs vis = remove_unvisited_loop (i + 1) ?cs' vis"
        using True unvisited by (simp add: remove_unvisited_loop.simps [of i cs] c_def Let_def)
      from "1.IH"(1) [OF True c_def unvisited d]
      have ih: "distinct (map commit_hash (remove_unvisited_loop (i + 1) ?cs' vis))"
        "set (remove_unvisited_loop (i + 1) ?cs' vis) \<subseteq> set ?cs'"
        "\<forall>x \<in> set ?cs'. vis (commit_hash x) \<noteq> None \<longrightarrow> x \<in> set (remove_unvisited_loop (i + 1) ?cs' vis)"
        by blast+
      have "\<forall>x \<in> set cs. vis (commit_hash x) \<noteq> None \<longrightarrow> x \<in> set (remove_unvisited_loop (i + 1) ?cs' vis)"
      proof (intro ballI impI)
        fix x assume x: "x \<in> set cs" "vis (commit_hash x) \<noteq> None"
        then have "commit_hash x \<noteq> commit_hash c" using unvisited by auto
        with x(1) have "x \<in> set ?cs'" by (rule remove_commit_keeps)
        with ih(3) x(2) show "x \<in> set (remove_unvisited_loop (i + 1) ?cs' vis)" by blast
      qed
      with ih(1,2) set_remove_commit [of "commit_hash c" cs] show ?thesis
        unfolding eq by blast
    next
      case visited: False
      from visited obtain y where "vis (commit_hash (cs ! i)) = Some y" by (auto simp: c_def)
      then have eq: "remove_unvisited_loop i cs vis = remove_unvisited_loop (i + 1) cs vis"
        using True by (simp add: remove_unvisited_loop.simps [of i cs] Let_def)
      from "1.IH"(2) [OF True c_def visited "1.prems"] show ?thesis unfolding eq .
    qed
  qed
qed

lemma pruned_views:
  fixes cs :: "CommitObject list" and vis :: "string \<rightharpoonup> bool"
  assumes d: "distinct (map commit_hash cs)"
  defines "cs' \<equiv> remove_unvisited_commits cs vis"
  shows "distinct (map commit_hash cs')" and "hashes cs' \<subseteq> hashes cs"
    and "\<And>h. h \<in> hashes cs \<Longrightarrow> vis h \<noteq> None \<Longrightarrow> h \<in> hashes cs'"
    and "\<And>h. h \<in> hashes cs' \<Longrightarrow> grab_corresponding_commit cs' h = grab_corresponding_commit cs h"
proof -
  note p = remove_unvisited_loop_props [OF d, of 0 vis, folded remove_unvisited_commits_def cs'_def]
  from p show d': "distinct (map commit_hash cs')" by blast
  from p have sub: "set cs' \<subseteq> set cs" by blast
  then show "hashes cs' \<subseteq> hashes cs" by (auto simp: hashes_def)
  show "h \<in> hashes cs'" if "h \<in> hashes cs" "vis h \<noteq> None" for h
  proof -
    from that(1) obtain c where "c \<in> set cs" "commit_hash c = h" by (auto simp: hashes_def)
    with p that(2) have "c \<in> set cs'" by blast
    with \<open>commit_hash c = h\<close> show ?thesis by (auto simp: hashes_def)
  qed
  show "grab_corresponding_commit cs' h = grab_corresponding_commit cs h" if "h \<in> hashes cs'" for h
  proof -
    from grab_in_hashes [OF that] obtain c where g: "grab_corresponding_commit cs' h = Some c" by blast
    then have "c \<in> set cs'" "commit_hash c = h" using grab_Some_mem by blast+
    with sub have "c \<in> set cs" by blast
    with \<open>commit_hash c = h\<close> have "grab_corresponding_commit cs h = Some c"
      using grab_Some_iff_distinct [OF d] by blast
    with g show ?thesis by simp
  qed
qed

lemma build_commit_graph_Inr:
  assumes "build_commit_graph branches cs roots = Inr (cs', roots')"
  obtains st where "build_loop 0 (build_init branches cs roots) = Inr st"
    and "cs' = remove_unvisited_commits (b_commits st) (b_visited st)"
    and "roots' = b_root_commits st"
  using assms
  by (cases "build_loop 0 (build_init branches cs roots)") (auto simp: build_commit_graph_def)

lemma built_graph_ok:
  assumes d: "distinct (map commit_hash cs)" and kids: "\<forall>c \<in> set cs. children c = []"
    and run: "build_commit_graph branches cs [] = Inr (cs', roots')"
  shows "graph_ok cs' roots'"
proof -
  obtain st where loop: "build_loop 0 (build_init branches cs []) = Inr st"
    and cs': "cs' = remove_unvisited_commits (b_commits st) (b_visited st)"
    and roots': "roots' = b_root_commits st"
    by (rule build_commit_graph_Inr [OF run])
  from build_loop_inv [OF kids loop]
  have sr: "same_records cs (b_commits st)" and dv: "dom (b_visited st) \<subseteq> hashes cs"
    and eo: "\<And>p c. p \<in> hashes cs \<Longrightarrow> count_list (children_of (b_commits st) p) c =
            (if b_visited st c = Some True then count_list (parents_of cs c) p else 0)"
    and ro: "roots_ok cs st"
    unfolding build_inv_def by blast+
  note v = same_records_views [OF sr]
  have dst: "distinct (map commit_hash (b_commits st))" unfolding v(3) by (rule d)
  note pv = pruned_views [OF dst, where vis = "b_visited st", folded cs']
  have sub: "hashes cs' \<subseteq> hashes cs" using pv(2) v(1) by simp
  have kept: "h \<in> hashes cs'" if "b_visited st h = Some True" for h
  proof -
    from that have "h \<in> dom (b_visited st)" by auto
    with dv have "h \<in> hashes (b_commits st)" unfolding v(1) by blast
    with that show ?thesis using pv(3) by auto
  qed
  have co: "children_of cs' h = children_of (b_commits st) h" if "h \<in> hashes cs'" for h
    by (simp add: children_of_def pv(4) [OF that])
  have po: "parents_of cs' h = parents_of cs h" if "h \<in> hashes cs'" for h
    unfolding v(2) [symmetric] by (simp add: parents_of_def pv(4) [OF that])
  have w2: "set (children_of cs' h) \<subseteq> hashes cs'" if h: "h \<in> hashes cs'" for h
  proof
    fix x assume "x \<in> set (children_of cs' h)"
    then have "0 < count_list (children_of (b_commits st) h) x"
      unfolding co [OF h] by (simp add: count_list_pos_iff)
    with eo [of h x] h sub have "b_visited st x = Some True"
      by (auto split: if_splits)
    then show "x \<in> hashes cs'" by (rule kept)
  qed
  have w3: "count_list (children_of cs' p) c \<le> count_list (parents_of cs' c) p"
    if p: "p \<in> hashes cs'" and c: "c \<in> hashes cs'" for p c
    unfolding co [OF p] po [OF c] using eo [of p c] p sub by auto
  from ro have dr: "distinct roots'"
    and rs: "set roots' = {x. b_visited st x = Some True \<and> parents_of cs x = []}"
    unfolding roots_ok_def roots' by blast+
  have w4: "r \<in> hashes cs' \<and> parents_of cs' r = []" if "r \<in> set roots'" for r
  proof -
    from that rs have t: "b_visited st r = Some True" and e: "parents_of cs r = []" by auto
    from kept [OF t] po e show ?thesis by simp
  qed
  show ?thesis
    unfolding graph_ok_def using pv(1) w2 w3 dr w4 by blast
qed

section \<open>The recovery branch of the sorter\<close>

text \<open>
  C10. For commit records with distinct hashes (children lists empty, as \<^verbatim>\<open>grab_commits\<close>
  makes them), the graph that \<^verbatim>\<open>build_commit_graph\<close> returns never sends
  \<^verbatim>\<open>topological_sort\<close> into its \<^verbatim>\<open>except ValueError\<close> branch: every removal finds the popped
  hash in the child's \<^verbatim>\<open>temp_parents\<close>. The sort returns, with a result or with one of its
  two exits, no attribute of \<^verbatim>\<open>None\<close> is read, and the warning is not among the lines on
  the error stream.
\<close>

theorem no_missing_parent_warning:
  assumes "distinct (map commit_hash cs)" and "\<forall>c \<in> set cs. children c = []"
    and "build_commit_graph branches cs [] = Inr (cs', roots')"
  shows "\<exists>r. topological_sort cs' roots' = Some r \<and> r \<noteq> Inl AttributeError
     \<and> warning \<notin> set (stderr_lines r)"
proof -
  from sort_stderr_clean [OF built_graph_ok [OF assms]]
  consider st where "topological_sort cs' roots' = Some (Inr st)" "s_stderr st = []"
    | "topological_sort cs' roots' = Some (Inl cycle_exit)"
    | "topological_sort cs' roots' = Some (Inl integrity_exit)"
    by blast
  then show ?thesis
  proof cases
    case 1
    then show ?thesis by (simp add: stderr_lines_def)
  next
    case 2
    then show ?thesis by (simp add: stderr_lines_def cycle_exit_def warning_def)
  next
    case 3
    then show ?thesis by (simp add: stderr_lines_def integrity_exit_def warning_def)
  qed
qed

theorem no_missing_parent_warning_witness:
  "build_commit_graph [(''c'', [''main''])] chain3 [] = Inr (chain3_built, [''a''])
   \<and> (\<exists>r. topological_sort chain3_built [''a''] = Some r \<and> r \<noteq> Inl AttributeError
        \<and> warning \<notin> set (stderr_lines r))"
proof -
  have d: "distinct (map commit_hash chain3)" by code_simp
  have k: "\<forall>c \<in> set chain3. children c = []" by code_simp
  have b: "build_commit_graph [(''c'', [''main''])] chain3 [] = Inr (chain3_built, [''a''])"
    by code_simp
  from no_missing_parent_warning [OF d k b] b show ?thesis by blast
qed

section \<open>Cycles\<close>

text \<open>
  C2. If the graph that \<^verbatim>\<open>build_commit_graph\<close> returns (for records with distinct hashes)
  contains a cycle of parent edges, \<^verbatim>\<open>topological_sort\<close> leaves its loop, finds a commit
  with a non-empty \<^verbatim>\<open>temp_parents\<close>, prints the single line
  \<^verbatim>\<open>cycle in .git graph detected\<close> and exits: no order is returned.
\<close>

theorem cycle_rejected:
  assumes "distinct (map commit_hash cs)" and "\<forall>c \<in> set cs. children c = []"
    and "build_commit_graph branches cs [] = Inr (cs', roots')"
    and "(h, h) \<in> (parent_rel cs')\<^sup>+"
  shows "topological_sort cs' roots' = Some (Inl (SystemExit [''cycle in .git graph detected'']))"
  using built_graph_ok [OF assms(1-3)] assms(4) by (rule sort_cycle_exit)

theorem cycle_rejected_witness:
  "build_commit_graph [(''p'', [''main''])] loop2 [] = Inr (loop2_built, [])
   \<and> (''p'', ''p'') \<in> (parent_rel loop2_built)\<^sup>+
   \<and> topological_sort loop2_built [] = Some (Inl (SystemExit [''cycle in .git graph detected'']))"
proof -
  have d: "distinct (map commit_hash loop2)" by code_simp
  have k: "\<forall>c \<in> set loop2. children c = []" by code_simp
  have b: "build_commit_graph [(''p'', [''main''])] loop2 [] = Inr (loop2_built, [])"
    by code_simp
  have "(''p'', ''q'') \<in> parent_rel loop2_built" "(''q'', ''p'') \<in> parent_rel loop2_built"
    by code_simp+
  then have c: "(''p'', ''p'') \<in> (parent_rel loop2_built)\<^sup>+" by (rule trancl_into_trancl [OF r_into_trancl])
  from cycle_rejected [OF d k b c] b c show ?thesis by blast
qed

section \<open>The sort after an incomplete pruning\<close>

text \<open>
  C1. For an acyclic input reachable from the branch heads the sort should return the
  reachable commits, ancestors first. Here the head \<open>a\<close> has no parents, and the two
  records \<open>u1\<close> and \<open>u2\<close> are unreachable; \<open>u2\<close> names \<open>a\<close> as its parent, so the input has no
  cycle. \<^verbatim>\<open>remove_unvisited_commits\<close> skips \<open>u2\<close>, which stays in the node store with
  children of no commit pointing to it: its \<^verbatim>\<open>temp_parents\<close> is never emptied, and
  \<^verbatim>\<open>topological_sort\<close> exits with the message for a cycle instead of returning the order
  of the one reachable commit.
\<close>

theorem acyclic_input_rejected:
  "acyclic (parent_rel stray2)
   \<and> build_commit_graph [(''a'', [''main''])] stray2 []
       = Inr ([\<lparr>commit_hash = ''u2'', parents = [''a''], children = [], temp_parents = []\<rparr>,
              \<lparr>commit_hash = ''a'', parents = [], children = [], temp_parents = []\<rparr>], [''a''])
   \<and> topological_sort
         [\<lparr>commit_hash = ''u2'', parents = [''a''], children = [], temp_parents = []\<rparr>,
          \<lparr>commit_hash = ''a'', parents = [], children = [], temp_parents = []\<rparr>] [''a'']
       = Some (Inl (SystemExit [''cycle in .git graph detected'']))"
  by code_simp

section \<open>Duplicates in the children lists\<close>

lemma distinct_count_list: "(\<And>x. count_list xs x \<le> 1) \<Longrightarrow> distinct xs"
proof (induction xs)
  case Nil
  show ?case by simp
next
  case (Cons a xs)
  have "count_list xs a = 0" using Cons.prems [of a] by simp
  then have "a \<notin> set xs" by (simp add: count_list_0_iff)
  moreover have "count_list xs x \<le> 1" for x
    using Cons.prems [of x] by (simp split: if_splits)
  ultimately show ?case using Cons.IH by simp
qed

lemma count_list_distinct: "distinct xs \<Longrightarrow> count_list xs x \<le> 1"
  by (induction xs) (auto simp: count_list_0_iff)

text \<open>
  The builder appends the child to the parent's \<^verbatim>\<open>children\<close> once for every occurrence of
  the parent in the child's \<^verbatim>\<open>parents\<close>, with no test for duplicates: a record \<open>c\<close> that
  declares the parent \<open>a\<close> twice is twice in the children of \<open>a\<close>.
\<close>

theorem children_duplicated_with_parent:
  "build_commit_graph [(''c'', [''main''])] twice [] = Inr (twice_built, [''a''])
   \<and> \<not> distinct (children (twice_built ! 0))"
  by code_simp

text \<open>
  C9, as the code has it: when the records have distinct hashes and no record declares
  the same parent twice, no children list of the built graph has a duplicate.
\<close>

theorem children_distinct:
  assumes d: "distinct (map commit_hash cs)" and kids: "\<forall>c \<in> set cs. children c = []"
    and dp: "\<forall>c \<in> set cs. distinct (parents c)"
    and run: "build_commit_graph branches cs [] = Inr (cs', roots')"
  shows "\<forall>c \<in> set cs'. distinct (children c)"
proof
  fix c assume c: "c \<in> set cs'"
  from built_graph_ok [OF d kids run] have d': "distinct (map commit_hash cs')"
    and w3: "\<And>p x. p \<in> hashes cs' \<Longrightarrow> x \<in> hashes cs' \<Longrightarrow>
        count_list (children_of cs' p) x \<le> count_list (parents_of cs' x) p"
    and w2: "\<And>h. h \<in> hashes cs' \<Longrightarrow> set (children_of cs' h) \<subseteq> hashes cs'"
    unfolding graph_ok_def by blast+
  have g: "grab_corresponding_commit cs' (commit_hash c) = Some c"
    using grab_Some_iff_distinct [OF d'] c by blast
  have hc: "commit_hash c \<in> hashes cs'" using c by (simp add: hashes_def)
  have ch: "children_of cs' (commit_hash c) = children c" by (simp add: children_of_def g)
  obtain st where loop: "build_loop 0 (build_init branches cs []) = Inr st"
    and cs': "cs' = remove_unvisited_commits (b_commits st) (b_visited st)"
    by (rule build_commit_graph_Inr [OF run])
  have dpo: "distinct (parents_of cs' x)" for x
  proof (cases "grab_corresponding_commit cs' x")
    case None
    then show ?thesis by (simp add: parents_of_def)
  next
    case (Some y)
    then have y: "y \<in> set cs'" using grab_Some_mem by blast
    from build_loop_inv [OF kids loop] have sr: "same_records cs (b_commits st)"
      unfolding build_inv_def by blast
    have "distinct (map commit_hash (b_commits st))"
      unfolding same_records_views(3) [OF sr] by (rule d)
    from remove_unvisited_loop_props [OF this, of 0 "b_visited st"] y
    have "y \<in> set (b_commits st)" unfolding cs' remove_unvisited_commits_def by blast
    then have "parents y \<in> set (map parents (b_commits st))" by simp
    then have "parents y \<in> set (map parents cs)" using sr unfolding same_records_def by simp
    then have "distinct (parents y)" using dp by auto
    with Some show ?thesis by (simp add: parents_of_def)
  qed
  have "count_list (children c) x \<le> 1" for x
  proof (cases "x \<in> set (children c)")
    case True
    then have "x \<in> hashes cs'" using w2 [OF hc] ch by auto
    from w3 [OF hc this] count_list_distinct [OF dpo, of x "commit_hash c"]
    show ?thesis unfolding ch by simp
  next
    case False
    then show ?thesis by (simp add: count_list_0_iff)
  qed
  then show "distinct (children c)" by (rule distinct_count_list)
qed

theorem children_distinct_witness:
  "build_commit_graph [(''c'', [''main''])] chain3 [] = Inr (chain3_built, [''a''])
   \<and> distinct (children (chain3_built ! 0)) \<and> distinct (children (chain3_built ! 1))
   \<and> distinct (children (chain3_built ! 2))"
proof -
  have d: "distinct (map commit_hash chain3)" by code_simp
  have k: "\<forall>c \<in> set chain3. children c = []" by code_simp
  have p: "\<forall>c \<in> set chain3. distinct (parents c)" by code_simp
  have b: "build_commit_graph [(''c'', [''main''])] chain3 [] = Inr (chain3_built, [''a''])"
    by code_simp
  have m: "chain3_built ! 0 \<in> set chain3_built" "chain3_built ! 1 \<in> set chain3_built"
    "chain3_built ! 2 \<in> set chain3_built"
    by (simp_all add: chain3_built_def)
  from children_distinct [OF d k p b] m b show ?thesis by blast
qed

section \<open>The markers of a broken chain\<close>

lemma print_args_space_separated: "print_args xs = space_separated xs"
  by (induction xs rule: print_args.induct) (simp_all add: space_separated_def)

lemma map_fst_hash_pairs: "map fst (hash_pairs xs) = xs"
  by (cases xs) (simp_all add: hash_pairs_def)

lemma hash_pairs_Cons2: "hash_pairs (x # y # ys) = (x, Some y) # hash_pairs (y # ys)"
  by (simp add: hash_pairs_def)

lemma hash_pairs_split:
  "\<exists>ps. hash_pairs (pre @ x # y # ys) = ps @ (x, Some y) # hash_pairs (y # ys)"
proof (induction pre)
  case Nil
  show ?case by (simp add: hash_pairs_Cons2)
next
  case (Cons a pre)
  obtain b bs where bs: "pre @ x # y # ys = b # bs" by (cases pre) auto
  have "hash_pairs (a # pre @ x # y # ys) = (a, Some b) # hash_pairs (pre @ x # y # ys)"
    unfolding bs by (rule hash_pairs_Cons2)
  with Cons.IH show ?case by (metis append_Cons)
qed

text \<open>What one iteration prints when the current hash has a commit object.\<close>

lemma print_body_found:
  assumes "grab_corresponding_commit cs h = Some c"
  shows "print_body cs branches prev h nxt =
     Inr ((if prev then [''='' @ space_separated (children c)] else [])
          @ [hash_line branches h]
          @ (case nxt of
               None \<Rightarrow> []
             | Some n \<Rightarrow> if n \<notin> set (parents c) then [space_separated (parents c) @ ''='', []]
                         else []),
          case nxt of None \<Rightarrow> False | Some n \<Rightarrow> n \<notin> set (parents c))"
  using assms
  by (cases prev; cases nxt)
    (auto simp: print_body_def hash_line_def Let_def print_args_space_separated
      split: option.splits)

lemma print_loop_returns:
  "set (map fst ps) \<subseteq> hashes cs \<Longrightarrow> \<exists>out. print_loop cs branches flag ps = Inr out"
proof (induction ps arbitrary: flag)
  case Nil
  show ?case by simp
next
  case (Cons p ps)
  obtain h nxt where p: "p = (h, nxt)" by (cases p)
  from Cons.prems have "h \<in> hashes cs" by (simp add: p)
  then obtain c where g: "grab_corresponding_commit cs h = Some c"
    using grab_in_hashes by blast
  from Cons.prems have "set (map fst ps) \<subseteq> hashes cs" by simp
  from Cons.IH [OF this] show ?case
    unfolding p by (simp add: print_body_found [OF g]) (metis sum.simps(6))
qed

lemma print_loop_append:
  "print_loop cs branches flag (ps @ qs) = Inr out \<Longrightarrow>
     \<exists>flag' out1 out2. print_loop cs branches flag' qs = Inr out2 \<and> out = out1 @ out2"
proof (induction ps arbitrary: flag out)
  case Nil
  then show ?case by (metis append_Nil)
next
  case (Cons p ps)
  obtain h nxt where p: "p = (h, nxt)" by (cases p)
  from Cons.prems obtain ls f out' where
    b: "print_body cs branches flag h nxt = Inr (ls, f)"
    and r: "print_loop cs branches f (ps @ qs) = Inr out'" and o: "out = ls @ out'"
    unfolding p by (auto split: sum.splits)
  from Cons.IH [OF r] obtain flag' out1 out2 where
    "print_loop cs branches flag' qs = Inr out2" "out' = out1 @ out2" by blast
  then show ?case unfolding o by (metis append.assoc)
qed

text \<open>
  C7. Let every hash of the display order have a commit object. Wherever the commit
  printed next is not among the parents of the current commit, the formatter returns and
  its output holds, in this order and next to each other: the line of the current commit;
  a line with the parents of the current commit, separated by single spaces and
  immediately followed by \<open>=\<close>; an empty line; a line that begins with \<open>=\<close> and goes on
  with the children of the next commit, separated by single spaces; the line of the next
  commit.
\<close>

theorem broken_chain_markers:
  assumes sub: "set (pre @ current_hash # next_hash # post) \<subseteq> hashes cs"
    and cur: "grab_corresponding_commit cs current_hash = Some c"
    and nxt: "grab_corresponding_commit cs next_hash = Some n"
    and brk: "next_hash \<notin> set (parents c)"
  shows "\<exists>before after.
     print_sticky_sorted_order (pre @ current_hash # next_hash # post) cs branches =
       Inr (before @ [hash_line branches current_hash, space_separated (parents c) @ ''='', [],
                      ''='' @ space_separated (children n), hash_line branches next_hash] @ after)"
proof -
  let ?order = "pre @ current_hash # next_hash # post"
  have "set (map fst (hash_pairs ?order)) \<subseteq> hashes cs"
    unfolding map_fst_hash_pairs by (rule sub)
  from print_loop_returns [OF this] obtain out where
    run: "print_loop cs branches False (hash_pairs ?order) = Inr out" by blast
  obtain ps where ps: "hash_pairs ?order
      = ps @ (current_hash, Some next_hash) # hash_pairs (next_hash # post)"
    using hash_pairs_split by blast
  from print_loop_append [OF run [unfolded ps]] obtain flag out1 out2 where
    r: "print_loop cs branches flag ((current_hash, Some next_hash) # hash_pairs (next_hash # post))
         = Inr out2" and o: "out = out1 @ out2" by blast
  let ?cl = "if flag then [''='' @ space_separated (children c)] else []"
  from r brk obtain out3 where
    r3: "print_loop cs branches True (hash_pairs (next_hash # post)) = Inr out3"
    and o2: "out2 = (?cl @ [hash_line branches current_hash]
        @ [space_separated (parents c) @ ''='', []]) @ out3"
    by (auto simp: print_body_found [OF cur] split: sum.splits)
  obtain nn rest where hp: "hash_pairs (next_hash # post) = (next_hash, nn) # rest"
    by (cases post) (auto simp: hash_pairs_def)
  from r3 obtain out4 where
    o3: "out3 = [''='' @ space_separated (children n), hash_line branches next_hash] @ out4"
    unfolding hp by (auto simp: print_body_found [OF nxt] split: sum.splits)
  have "out = (out1 @ ?cl) @ [hash_line branches current_hash, space_separated (parents c) @ ''='', [],
                        ''='' @ space_separated (children n), hash_line branches next_hash] @ out4"
    unfolding o o2 o3 by simp
  with run show ?thesis
    unfolding print_sticky_sorted_order_def hash_pairs_def [symmetric] by blast
qed

text \<open>
  The run on a merge \<open>m\<close> of three roots and a root \<open>d\<close> with two children: built, sorted
  and printed in reverse, the output has the markers \<open>a b c=\<close> and \<open>=x y\<close> around the
  empty line between \<open>m\<close> and \<open>d\<close>.
\<close>

theorem broken_chain_markers_witness:
  "build_commit_graph merge_heads merge_records [] = Inr (merge_built, [''a'', ''b'', ''c'', ''d''])
   \<and> map_option (map_sum id s_sorted_list) (topological_sort merge_built [''a'', ''b'', ''c'', ''d''])
       = Some (Inr (rev [''y'', ''x'', ''m'', ''d'', ''c'', ''b'', ''a'']))
   \<and> print_sticky_sorted_order [''y'', ''x'', ''m'', ''d'', ''c'', ''b'', ''a''] merge_built merge_heads
       = Inr [''y right'', ''d='', [], ''='', ''x left'', ''d='', [], ''='',
              ''m dev main'', ''a b c='', [], ''=x y'', ''d'', ''='', [], ''=m'',
              ''c'', ''='', [], ''=m'', ''b'', ''='', [], ''=m'', ''a'']
   \<and> (\<exists>before after.
        print_sticky_sorted_order ([''y'', ''x''] @ ''m'' # ''d'' # [''c'', ''b'', ''a'']) merge_built
            merge_heads
          = Inr (before @ [''m dev main'', ''a b c='', [], ''=x y'', ''d''] @ after))"
proof -
  have b: "build_commit_graph merge_heads merge_records []
      = Inr (merge_built, [''a'', ''b'', ''c'', ''d''])" by code_simp
  have s: "map_option (map_sum id s_sorted_list) (topological_sort merge_built [''a'', ''b'', ''c'', ''d''])
      = Some (Inr (rev [''y'', ''x'', ''m'', ''d'', ''c'', ''b'', ''a'']))" by code_simp
  have p: "print_sticky_sorted_order [''y'', ''x'', ''m'', ''d'', ''c'', ''b'', ''a''] merge_built merge_heads
       = Inr [''y right'', ''d='', [], ''='', ''x left'', ''d='', [], ''='',
              ''m dev main'', ''a b c='', [], ''=x y'', ''d'', ''='', [], ''=m'',
              ''c'', ''='', [], ''=m'', ''b'', ''='', [], ''=m'', ''a'']" by code_simp
  have sub: "set ([''y'', ''x''] @ ''m'' # ''d'' # [''c'', ''b'', ''a'']) \<subseteq> hashes merge_built"
    by code_simp
  have cur: "grab_corresponding_commit merge_built ''m'' = Some (merge_built ! 3)" by code_simp
  have nxt: "grab_corresponding_commit merge_built ''d'' = Some (merge_built ! 4)" by code_simp
  have brk: "''d'' \<notin> set (parents (merge_built ! 3))" by code_simp
  have l1: "hash_line merge_heads ''m'' = ''m dev main''" by code_simp
  have l2: "space_separated (parents (merge_built ! 3)) @ ''='' = ''a b c=''" by code_simp
  have l3: "''='' @ space_separated (children (merge_built ! 4)) = ''=x y''" by code_simp
  have l4: "hash_line merge_heads ''d'' = ''d''" by code_simp
  from broken_chain_markers [OF sub cur nxt brk, of merge_heads]
  have "\<exists>before after.
        print_sticky_sorted_order ([''y'', ''x''] @ ''m'' # ''d'' # [''c'', ''b'', ''a'']) merge_built
            merge_heads
          = Inr (before @ [''m dev main'', ''a b c='', [], ''=x y'', ''d''] @ after)"
    unfolding l1 l2 l3 l4 .
  with b s p show ?thesis by (intro conjI)
qed

section \<open>Two runs on the same input\<close>








lemma pl_erase [simp]: "b_processing_list (erase_state st) = b_processing_list st"
  by (simp add: erase_state_def)











end
